theory Spec2Isabelle
  imports Main "HOL-Library.Sublist"
begin

chapter \<open>The program\<close>

section \<open>Python strings and library functions\<close>

text \<open>
  A Python \<open>str\<close> is a sequence of Unicode code points, so it is modelled as a list of
  natural numbers (\<open>len\<close> is \<open>length\<close>). Literals of the source are written
  \<open>str ''...''\<close>.
\<close>

type_synonym pystr = "nat list"

definition str :: "string \<Rightarrow> pystr" where
  "str s = map of_char s"

abbreviation LF :: nat where "LF \<equiv> 10"

abbreviation CR :: nat where "CR \<equiv> 13"

text \<open>\<open>str.isspace\<close> of one code point: the whitespace table of CPython.\<close>

definition is_space :: "nat \<Rightarrow> bool" where
  "is_space c \<longleftrightarrow>
     (9 \<le> c \<and> c \<le> 13) \<or> (28 \<le> c \<and> c \<le> 32) \<or> c = 133 \<or> c = 160 \<or> c = 5760 \<or>
     (8192 \<le> c \<and> c \<le> 8202) \<or> c = 8232 \<or> c = 8233 \<or> c = 8239 \<or> c = 8287 \<or> c = 12288"

text \<open>\<open>s.strip()\<close>: leading and trailing whitespace removed.\<close>

definition py_strip :: "pystr \<Rightarrow> pystr" where
  "py_strip s = rev (dropWhile is_space (rev (dropWhile is_space s)))"

text \<open>
  \<open>s.split(sep)\<close> for a non-empty separator: the occurrences of \<open>sep\<close> are found from
  left to right without overlap. (Python raises \<open>ValueError\<close> on an empty separator;
  every call of the source passes a non-empty literal.)
\<close>

function py_split :: "pystr \<Rightarrow> pystr \<Rightarrow> pystr list" where
  "py_split sep [] = [[]]"
| "py_split sep (c # cs) =
     (if sep \<noteq> [] \<and> prefix sep (c # cs)
      then [] # py_split sep (drop (length sep) (c # cs))
      else (case py_split sep cs of [] \<Rightarrow> [[c]] | p # ps \<Rightarrow> (c # p) # ps))"
  by pat_completeness auto
termination
  by (relation "measure (\<lambda>(sep, s). length s)") (auto simp: Suc_le_eq)

text \<open>\<open>sep.join(xs)\<close>.\<close>

fun py_join :: "pystr \<Rightarrow> pystr list \<Rightarrow> pystr" where
  "py_join sep [] = []"
| "py_join sep [x] = x"
| "py_join sep (x # y # ys) = x @ sep @ py_join sep (y # ys)"

text \<open>\<open>sub in s\<close>: \<open>sub\<close> occurs in \<open>s\<close> as a contiguous substring.\<close>

fun contains :: "pystr \<Rightarrow> pystr \<Rightarrow> bool" where
  "contains sub [] = (sub = [])"
| "contains sub (c # cs) = (prefix sub (c # cs) \<or> contains sub cs)"

text \<open>
  \<open>s.replace(old, new)\<close>: every occurrence of \<open>old\<close>, found from left to right without
  overlap, is replaced. With an empty \<open>old\<close> Python inserts \<open>new\<close> before every
  character and at the end.
\<close>

function py_replace :: "pystr \<Rightarrow> pystr \<Rightarrow> pystr \<Rightarrow> pystr" where
  "py_replace old new [] = (if old = [] then new else [])"
| "py_replace old new (c # cs) =
     (if old = [] then new @ c # py_replace old new cs
      else if prefix old (c # cs) then new @ py_replace old new (drop (length old) (c # cs))
      else c # py_replace old new cs)"
  by pat_completeness auto
termination
  by (relation "measure (\<lambda>(old, new, s). length s)") (auto simp: Suc_le_eq)

text \<open>A replacement by a shorter text shortens the text where the old one occurs.\<close>

lemma length_py_replace_le:
  "length new \<le> length old \<Longrightarrow> old \<noteq> [] \<Longrightarrow> length (py_replace old new s) \<le> length s"
proof (induction old new s rule: py_replace.induct)
  case (1 old new)
  then show ?case by simp
next
  case (2 old new c cs)
  show ?case
  proof (cases "prefix old (c # cs)")
    case True
    then have len: "length old \<le> length (c # cs)"
      by (rule prefix_length_le)
    from True 2 have "length (py_replace old new (drop (length old) (c # cs)))
        \<le> length (drop (length old) (c # cs))"
      by simp
    with True 2 len show ?thesis
      by simp
  next
    case False
    with 2 show ?thesis by simp
  qed
qed

lemma length_py_replace_less:
  "contains old s \<Longrightarrow> length new < length old \<Longrightarrow> length (py_replace old new s) < length s"
proof (induction old new s rule: py_replace.induct)
  case (1 old new)
  then show ?case by simp
next
  case (2 old new c cs)
  from 2 have ne: "old \<noteq> []" by auto
  show ?case
  proof (cases "prefix old (c # cs)")
    case True
    then have len: "length old \<le> length (c # cs)"
      by (rule prefix_length_le)
    have "length (py_replace old new (drop (length old) (c # cs)))
        \<le> length (drop (length old) (c # cs))"
      using 2 ne by (intro length_py_replace_le) auto
    with True ne len 2 show ?thesis
      by simp
  next
    case False
    with 2 ne show ?thesis by simp
  qed
qed

text \<open>
  \<open>s.split()\<close>: the maximal runs of non-whitespace, in order. The scan keeps the token
  it is reading in \<open>cur\<close>.
\<close>

fun split_ws_scan :: "pystr \<Rightarrow> pystr \<Rightarrow> pystr list" where
  "split_ws_scan cur [] = (if cur = [] then [] else [cur])"
| "split_ws_scan cur (c # cs) =
     (if is_space c then (if cur = [] then [] else [cur]) @ split_ws_scan [] cs
      else split_ws_scan (cur @ [c]) cs)"

definition py_split_ws :: "pystr \<Rightarrow> pystr list" where
  "py_split_ws s = split_ws_scan [] s"

text \<open>\<open>s.count(sub)\<close> for a non-empty \<open>sub\<close>: the occurrences found from left to right without overlap.\<close>

function py_count :: "pystr \<Rightarrow> pystr \<Rightarrow> nat" where
  "py_count sub [] = 0"
| "py_count sub (c # cs) =
     (if sub \<noteq> [] \<and> prefix sub (c # cs) then 1 + py_count sub (drop (length sub) (c # cs))
      else py_count sub cs)"
  by pat_completeness auto
termination
  by (relation "measure (\<lambda>(sub, s). length s)") (auto simp: Suc_le_eq)

text \<open>
  \<open>s.splitlines()\<close>: the text is cut at every line boundary (\<open>'\r\n'\<close> counts as one),
  and the text after the last boundary is a line only when it is not empty. The scan keeps
  the line it is reading in \<open>cur\<close>.
\<close>

definition is_linebreak :: "nat \<Rightarrow> bool" where
  "is_linebreak c \<longleftrightarrow>
     (10 \<le> c \<and> c \<le> 13) \<or> (28 \<le> c \<and> c \<le> 30) \<or> c = 133 \<or> c = 8232 \<or> c = 8233"

fun splitlines_scan :: "pystr \<Rightarrow> pystr \<Rightarrow> pystr list" where
  "splitlines_scan cur [] = (if cur = [] then [] else [cur])"
| "splitlines_scan cur [c] = (if is_linebreak c then [cur] else [cur @ [c]])"
| "splitlines_scan cur (c # d # cs) =
     (if c = CR \<and> d = LF then cur # splitlines_scan [] cs
      else if is_linebreak c then cur # splitlines_scan [] (d # cs)
      else splitlines_scan (cur @ [c]) (d # cs))"

definition py_splitlines :: "pystr \<Rightarrow> pystr list" where
  "py_splitlines s = splitlines_scan [] s"

text \<open>\<open>str(n)\<close> of a non-negative integer: its decimal digits.\<close>

function str_nat :: "nat \<Rightarrow> pystr" where
  "str_nat n = (if n < 10 then [48 + n] else str_nat (n div 10) @ [48 + n mod 10])"
  by pat_completeness auto
termination
  by (relation "measure id") auto

declare str_nat.simps [simp del]

text \<open>\<open>str(n)\<close> of an integer.\<close>

definition str_int :: "int \<Rightarrow> pystr" where
  "str_int i = (if i < 0 then 45 # str_nat (nat (- i)) else str_nat (nat i))"

text \<open>\<open>s.rfind(c)\<close> for one character: the last index of \<open>c\<close>, \<open>None\<close> for Python's \<open>-1\<close>.\<close>

fun py_rfind :: "nat \<Rightarrow> pystr \<Rightarrow> nat option" where
  "py_rfind d [] = None"
| "py_rfind d (c # cs) =
     (case py_rfind d cs of Some i \<Rightarrow> Some (Suc i)
      | None \<Rightarrow> if c = d then Some 0 else None)"

text \<open>
  \<open>s.lower()\<close> on the ASCII letters. The source compares the result with ASCII literals,
  and these comparisons come out as in Python: the only other code points whose lower case
  holds an ASCII letter are \<open>U+212A\<close> (\<open>k\<close>, a letter of no literal) and \<open>U+0130\<close> (\<open>i\<close>
  with a combining dot, which equals no literal). A message that quotes a rejected
  extension is exact for ASCII names.
\<close>

definition py_lower :: "pystr \<Rightarrow> pystr" where
  "py_lower s = map (\<lambda>c. if 65 \<le> c \<and> c \<le> 90 then c + 32 else c) s"

text \<open>The sentence terminators of the pattern \<open>[.!?]+\<close>.\<close>

definition is_terminator :: "nat \<Rightarrow> bool" where
  "is_terminator c \<longleftrightarrow> c = 46 \<or> c = 33 \<or> c = 63"

text \<open>
  \<open>re.split(r'[.!?]+', s)\<close>: the leftmost match is the first terminator with all the
  terminators that follow it; the text before it is a piece, and the search goes on
  behind the match. The text after the last match is the last piece.
\<close>

function re_split_terminators :: "pystr \<Rightarrow> pystr list" where
  "re_split_terminators s =
     (let piece = takeWhile (\<lambda>c. \<not> is_terminator c) s;
          rest = dropWhile (\<lambda>c. \<not> is_terminator c) s
      in if rest = [] then [piece]
         else piece # re_split_terminators (dropWhile is_terminator rest))"
  by pat_completeness auto
termination
proof (relation "measure length")
  show "wf (measure length)" by simp
next
  fix s piece rest :: pystr
  assume rest: "rest = dropWhile (\<lambda>c. \<not> is_terminator c) s" and ne: "rest \<noteq> []"
  then have "is_terminator (hd rest)"
    using hd_dropWhile [of "\<lambda>c. \<not> is_terminator c" s] by simp
  with ne have "length (dropWhile is_terminator rest) < length rest"
    by (cases rest) (auto simp: less_Suc_eq_le length_dropWhile_le)
  also have "length rest \<le> length s"
    unfolding rest by (rule length_dropWhile_le)
  finally show "(dropWhile is_terminator rest, s) \<in> measure length" by simp
qed

declare re_split_terminators.simps [simp del]

text \<open>
  An exception is a value: \<open>ValueError\<close> with its message, a fault of an external
  library (recognition, rasterization, image decoding) with its message, the
  \<open>UnicodeEncodeError\<close> of a strict codec, or an \<open>OSError\<close> of the operating system with
  its message.
\<close>

datatype error = ValueError pystr | LibraryError pystr | UnicodeEncodeError | OSError pystr

section \<open>Paths (\<open>pathlib\<close>)\<close>

text \<open>
  A path is its directory components and its final component, the \<open>name\<close>
  (empty for \<open>Path('.')\<close> and for a root).
\<close>

record path =
  parent :: "pystr list"
  name :: pystr

text \<open>\<open>PurePath.suffix\<close>: the name from its last dot on, unless that dot is first or last.\<close>

definition suffix_of :: "pystr \<Rightarrow> pystr" where
  "suffix_of nm =
     (case py_rfind 46 nm of None \<Rightarrow> []
      | Some i \<Rightarrow> if 0 < i \<and> i < length nm - 1 then drop i nm else [])"

text \<open>
  \<open>PurePath.with_suffix\<close> (POSIX flavour). The messages, which hold the \<open>repr\<close> of the
  suffix or of the path, are abbreviated.
\<close>

definition with_suffix :: "path \<Rightarrow> pystr \<Rightarrow> error + path" where
  "with_suffix p suffix' =
     (if 47 \<in> set suffix' then Inl (ValueError (str ''Invalid suffix''))
      else if (suffix' \<noteq> [] \<and> \<not> prefix [46] suffix') \<or> suffix' = [46]
      then Inl (ValueError (str ''Invalid suffix''))
      else if name p = [] then Inl (ValueError (str ''path has an empty name''))
      else let old_suffix = suffix_of (name p)
      in if old_suffix = [] then Inr (p\<lparr>name := name p @ suffix'\<rparr>)
         else Inr (p\<lparr>name := take (length (name p) - length old_suffix) (name p) @ suffix'\<rparr>))"

section \<open>Files\<close>

text \<open>
  The file system is a map from paths to the contents of the regular files: two paths that
  differ name two files. A text file is the sequence of code points its bytes decode to
  (the byte-order mark of \<open>utf-8-sig\<close> is the code point \<open>U+FEFF\<close>), so a file of size
  zero is the empty sequence.
\<close>

type_synonym fs = "path \<Rightarrow> pystr option"

abbreviation BOM :: nat where "BOM \<equiv> 65279"

text \<open>
  What else the file system holds, its directories and permissions, shows in the answers
  of the operating system, which are a parameter. \<open>mkdir_error os d\<close> is the \<open>OSError\<close>
  that \<open>mkdir(parents=True, exist_ok=True)\<close> raises on the directory with the components
  \<open>d\<close> (a file in the way, a missing permission), and \<open>open_error os p\<close> is the one
  that \<open>open(p, mode)\<close> raises (\<open>IsADirectoryError\<close> where \<open>p\<close> is an existing
  directory, \<open>FileNotFoundError\<close> where a directory above it is missing,
  \<open>PermissionError\<close>, a name the system rejects); they are \<open>None\<close> where the call goes
  through.
\<close>

record os =
  mkdir_error :: "pystr list \<Rightarrow> error option"
  open_error :: "path \<Rightarrow> error option"

text \<open>
  The codecs \<open>utf-8\<close> and \<open>utf-8-sig\<close>, which the program uses with the strict error
  handler, encode every code point but the surrogates \<open>U+D800\<close> to \<open>U+DFFF\<close>; a text that
  holds one makes the write raise \<open>UnicodeEncodeError\<close>.
\<close>

definition is_surrogate :: "nat \<Rightarrow> bool" where
  "is_surrogate c \<longleftrightarrow> 55296 \<le> c \<and> c \<le> 57343"

definition utf8_encodable :: "pystr \<Rightarrow> bool" where
  "utf8_encodable s \<longleftrightarrow> (\<forall>c\<in>set s. \<not> is_surrogate c)"

text \<open>
  Writing in text mode without a \<open>newline\<close> argument turns every \<open>'\n'\<close> into
  \<open>os.linesep\<close>; reading in text mode turns \<open>'\r\n'\<close> and a lone \<open>'\r'\<close> into \<open>'\n'\<close>.
\<close>

definition text_mode_write :: "pystr \<Rightarrow> pystr \<Rightarrow> pystr" where
  "text_mode_write linesep s = py_replace [LF] linesep s"

fun universal_newlines :: "pystr \<Rightarrow> pystr" where
  "universal_newlines [] = []"
| "universal_newlines [c] = [if c = CR then LF else c]"
| "universal_newlines (c # d # cs) =
     (if c = CR \<and> d = LF then LF # universal_newlines cs
      else if c = CR then LF # universal_newlines (d # cs)
      else c # universal_newlines (d # cs))"

text \<open>
  \<open>with open(p, 'w', ...) as f: f.write(data)\<close>, where \<open>data\<close> is the text after the
  translation of its newlines. Opening creates the file or empties it; the text is encoded
  as a whole, so a text that cannot be encoded leaves the file empty. The result is the
  exception raised, if any, and the file system as it is then.
\<close>

definition write_file :: "os \<Rightarrow> path \<Rightarrow> pystr \<Rightarrow> fs \<Rightarrow> error option \<times> fs" where
  "write_file os p data files =
     (case open_error os p of Some e \<Rightarrow> (Some e, files)
      | None \<Rightarrow>
          if utf8_encodable data then (None, files(p \<mapsto> data))
          else (Some UnicodeEncodeError, files(p \<mapsto> [])))"

text \<open>\<open>with open(p, 'r', encoding='utf-8') as f: f.read()\<close>.\<close>

definition read_text :: "os \<Rightarrow> fs \<Rightarrow> path \<Rightarrow> error + pystr" where
  "read_text os files p =
     (case open_error os p of Some e \<Rightarrow> Inl e
      | None \<Rightarrow>
          (case files p of None \<Rightarrow> Inl (OSError (str ''No such file or directory''))
           | Some content \<Rightarrow> Inr (universal_newlines content)))"

section \<open>Text Extractor and Orchestrator: \<open>OCRProcessor\<close>\<close>

text \<open>The loop over the lines, with \<open>cleaned_lines\<close> as the accumulator.\<close>

fun clean_loop :: "pystr list \<Rightarrow> pystr list \<Rightarrow> pystr list" where
  "clean_loop [] cleaned_lines = cleaned_lines"
| "clean_loop (line # lines) cleaned_lines =
     (let line' = py_strip line
      in if line' \<noteq> [] then clean_loop lines (cleaned_lines @ [line'])
         else clean_loop lines cleaned_lines)"

text \<open>
  The loop \<open>while '\n\n\n' in cleaned_text: cleaned_text = cleaned_text.replace('\n\n\n', '\n\n')\<close>.
  Every round shortens the text, so the loop ends.
\<close>

function collapse_newlines :: "pystr \<Rightarrow> pystr" where
  "collapse_newlines s =
     (if contains [LF, LF, LF] s then collapse_newlines (py_replace [LF, LF, LF] [LF, LF] s)
      else s)"
  by pat_completeness auto
termination
  by (relation "measure length") (auto intro: length_py_replace_less)

declare collapse_newlines.simps [simp del]

text \<open>\<open>_clean_text\<close>.\<close>

definition clean_text :: "pystr \<Rightarrow> pystr" where
  "clean_text text =
     (if text = [] then []
      else collapse_newlines (py_join [LF] (clean_loop (py_split [LF] text) [])))"

text \<open>
  The external capabilities the processor calls: \<open>pytesseract.image_to_string\<close> (with the
  configuration \<open>--oem 3 --psm 6\<close>), \<open>pdf2image.convert_from_path\<close> (at 300 dpi),
  \<open>Image.open\<close>, the test \<open>image.mode != 'RGB'\<close> and \<open>image.convert('RGB')\<close>.
\<close>

record 'img capabilities =
  image_to_string :: "'img \<Rightarrow> error + pystr"
  convert_from_path :: "path \<Rightarrow> error + 'img list"
  image_open :: "path \<Rightarrow> error + 'img"
  mode_is_RGB :: "'img \<Rightarrow> bool"
  convert_RGB :: "'img \<Rightarrow> error + 'img"

text \<open>\<open>_run_tesseract_ocr\<close>; its handler logs the exception and raises it again.\<close>

definition run_tesseract_ocr :: "'img capabilities \<Rightarrow> 'img \<Rightarrow> error + pystr" where
  "run_tesseract_ocr cap img =
     (case image_to_string cap img of Inl e \<Rightarrow> Inl e
      | Inr text \<Rightarrow> Inr (clean_text text))"

text \<open>\<open>_extract_text_from_image\<close> runs \<open>_run_tesseract_ocr\<close> in an executor and awaits it.\<close>

definition extract_text_from_image :: "'img capabilities \<Rightarrow> 'img \<Rightarrow> error + pystr" where
  "extract_text_from_image cap img = run_tesseract_ocr cap img"

text \<open>The marker \<open>f"--- Page {i + 1} ---"\<close> of page number \<open>n\<close>.\<close>

definition page_marker :: "nat \<Rightarrow> pystr" where
  "page_marker n = str ''--- Page '' @ str_nat n @ str '' ---''"

text \<open>
  The loop \<open>for i, image in enumerate(images)\<close> of \<open>_process_pdf\<close>, from index \<open>i\<close> on,
  with \<open>extracted_texts\<close> as the accumulator.
\<close>

fun process_pages :: "'img capabilities \<Rightarrow> nat \<Rightarrow> 'img list \<Rightarrow> pystr list \<Rightarrow> error + pystr list" where
  "process_pages cap i [] extracted_texts = Inr extracted_texts"
| "process_pages cap i (img # images) extracted_texts =
     (case extract_text_from_image cap img of Inl e \<Rightarrow> Inl e
      | Inr page_text \<Rightarrow>
          process_pages cap (i + 1) images
            (if py_strip page_text \<noteq> []
             then extracted_texts @ [page_marker (i + 1) @ [LF] @ page_text]
             else extracted_texts))"

text \<open>
  \<open>_process_pdf\<close>, \<open>_process_image\<close> and \<open>process_file\<close>. The handlers of the first two
  log the exception and raise it again.
\<close>

definition process_pdf :: "'img capabilities \<Rightarrow> path \<Rightarrow> error + pystr" where
  "process_pdf cap pdf_path =
     (case convert_from_path cap pdf_path of Inl e \<Rightarrow> Inl e
      | Inr images \<Rightarrow>
          if images = [] then Inl (ValueError (str ''No pages found in PDF''))
          else (case process_pages cap 0 images [] of Inl e \<Rightarrow> Inl e
                | Inr extracted_texts \<Rightarrow> Inr (py_join [LF, LF] extracted_texts)))"

definition process_image :: "'img capabilities \<Rightarrow> path \<Rightarrow> error + pystr" where
  "process_image cap image_path =
     (case image_open cap image_path of Inl e \<Rightarrow> Inl e
      | Inr img \<Rightarrow>
          (case (if \<not> mode_is_RGB cap img then convert_RGB cap img else Inr img) of
             Inl e \<Rightarrow> Inl e
           | Inr img' \<Rightarrow> extract_text_from_image cap img'))"

definition process_file :: "'img capabilities \<Rightarrow> path \<Rightarrow> error + pystr" where
  "process_file cap file_path =
     (let file_extension = py_lower (suffix_of (name file_path))
      in if file_extension = str ''.pdf'' then process_pdf cap file_path
         else if file_extension \<in> set [str ''.png'', str ''.jpg'', str ''.jpeg'', str ''.tiff'', str ''.bmp'']
         then process_image cap file_path
         else Inl (ValueError (str ''Unsupported file type: '' @ file_extension)))"

section \<open>Text Structurer: \<open>FileConverter._parse_text_to_structured_data\<close>\<close>

text \<open>The dictionary the structurer returns: its keys are always these four.\<close>

record structured_data =
  paragraphs :: "pystr list"
  sentences :: "pystr list"
  words :: "pystr list"
  page_count :: nat

text \<open>The first statement of the \<open>try\<close> block: the rebinding of \<open>text\<close>.\<close>

definition normalize_newlines :: "pystr \<Rightarrow> pystr" where
  "normalize_newlines text =
     (if contains [CR, LF] text then py_replace [CR, LF] [LF] text
      else if contains [CR] text then py_replace [CR] [LF] text
      else text)"

text \<open>\<open>[p.strip() for p in text.split('\n\n') if p.strip()]\<close>.\<close>

definition split_paragraphs :: "pystr \<Rightarrow> pystr list" where
  "split_paragraphs text =
     map py_strip (filter (\<lambda>p. py_strip p \<noteq> []) (py_split [LF, LF] text))"

text \<open>The loop over the paragraphs, with the list \<open>sentences\<close> as the accumulator.\<close>

fun sentences_loop :: "pystr list \<Rightarrow> pystr list \<Rightarrow> pystr list" where
  "sentences_loop [] sentences' = sentences'"
| "sentences_loop (paragraph # rest) sentences' =
     (let para_sentences = re_split_terminators paragraph
      in sentences_loop rest
           (sentences' @ map py_strip (filter (\<lambda>s. py_strip s \<noteq> []) para_sentences)))"

text \<open>\<open>text.count('--- Page') + 1 if '--- Page' in text else 1\<close>.\<close>

definition count_pages :: "pystr \<Rightarrow> nat" where
  "count_pages text =
     (if contains (str ''--- Page'') text then py_count (str ''--- Page'') text + 1 else 1)"

text \<open>
  No statement of the \<open>try\<close> block raises on a string. To exercise the handler all the
  same, a fault can be injected at any statement: \<open>fault\<close> tells at which. The block
  gives its dictionary, or, when a fault is raised, the value the variable \<open>text\<close>
  holds at that moment, which is what the handler reads.
\<close>

datatype statement = Normalize | Paragraphs | Sentences | Words | PageCount

definition parse_try_block :: "(statement \<Rightarrow> bool) \<Rightarrow> pystr \<Rightarrow> pystr + structured_data" where
  "parse_try_block fault text =
     (if fault Normalize then Inl text
      else let text' = normalize_newlines text
      in if fault Paragraphs then Inl text'
      else let paragraphs = split_paragraphs text'
      in if fault Sentences then Inl text'
      else let sentences = sentences_loop paragraphs []
      in if fault Words then Inl text'
      else let words = py_split_ws text'
      in if fault PageCount then Inl text'
      else Inr \<lparr>paragraphs = paragraphs, sentences = sentences, words = words,
                 page_count = count_pages text'\<rparr>)"

text \<open>The handler \<open>except Exception\<close>: the degenerate dictionary of the text it reads.\<close>

definition parse_fallback :: "pystr \<Rightarrow> structured_data" where
  "parse_fallback text =
     \<lparr>paragraphs = [text], sentences = [text], words = py_split_ws text, page_count = 1\<rparr>"

definition parse_text_under :: "(statement \<Rightarrow> bool) \<Rightarrow> pystr \<Rightarrow> structured_data" where
  "parse_text_under fault text =
     (case parse_try_block fault text of Inr d \<Rightarrow> d | Inl text' \<Rightarrow> parse_fallback text')"

text \<open>The function as it runs on a string: no fault.\<close>

definition parse_text_to_structured_data :: "pystr \<Rightarrow> structured_data" where
  "parse_text_to_structured_data text = parse_text_under (\<lambda>_. False) text"

section \<open>Format Encoders: \<open>FileConverter\<close>\<close>

subsection \<open>CSV and TXT\<close>

text \<open>A cell of a CSV row is an integer or a string; \<open>str(cell)\<close> is its text.\<close>

datatype cell = IntCell int | StrCell pystr

fun cell_str :: "cell \<Rightarrow> pystr" where
  "cell_str (IntCell i) = str_int i"
| "cell_str (StrCell s) = s"

text \<open>
  The record that \<open>csv.writer(f, dialect='excel', quoting=csv.QUOTE_ALL, lineterminator='\r\n')\<close>
  makes of a row: every field in double quotes with its double quotes doubled, commas
  between the fields, CRLF at the end.
\<close>

definition csv_field :: "cell \<Rightarrow> pystr" where
  "csv_field c = [34] @ py_replace [34] [34, 34] (cell_str c) @ [34]"

definition csv_record :: "cell list \<Rightarrow> pystr" where
  "csv_record row = py_join [44] (map csv_field row) @ [CR, LF]"

text \<open>
  \<open>writer.writerows(csv_data)\<close> on a file opened with \<open>utf-8-sig\<close>: the writer hands the
  file one record per row, and the file encodes each as it comes, the byte-order mark
  before the first. \<open>written\<close> is what the file holds so far; it keeps that when a record
  cannot be encoded.
\<close>

fun writerows :: "cell list list \<Rightarrow> pystr \<Rightarrow> error option \<times> pystr" where
  "writerows [] written = (None, written)"
| "writerows (row # rows) written =
     (let line = csv_record row
      in if utf8_encodable line
         then writerows rows (written @ (if written = [] then [BOM] else []) @ line)
         else (Some UnicodeEncodeError, written))"

text \<open>The rewriting by hand, the loop \<open>for row in csv_data\<close> with \<open>csv_string\<close> as the accumulator.\<close>

fun csv_string_loop :: "cell list list \<Rightarrow> pystr \<Rightarrow> pystr" where
  "csv_string_loop [] csv_string = csv_string"
| "csv_string_loop (row # rows) csv_string =
     (let escaped_cells = map (\<lambda>cell. py_replace [34] [34, 34] (cell_str cell)) row
      in csv_string_loop rows
           (csv_string @ [34] @ py_join [34, 44, 34] escaped_cells @ [34] @ [CR, LF]))"

text \<open>The loop \<open>for idx, line in enumerate(lines, 1)\<close> of \<open>_convert_to_csv_sync\<close>.\<close>

fun csv_lines_loop :: "int \<Rightarrow> pystr list \<Rightarrow> cell list list \<Rightarrow> cell list list" where
  "csv_lines_loop idx [] csv_data = csv_data"
| "csv_lines_loop idx (line # lines) csv_data =
     csv_lines_loop (idx + 1) lines (csv_data @ [[IntCell idx, StrCell line]])"

text \<open>The rows \<open>_convert_to_csv_sync\<close> builds before it writes.\<close>

definition line_csv_data :: "pystr \<Rightarrow> cell list list" where
  "line_csv_data text =
     (let lines = py_splitlines text;
          csv_data = csv_lines_loop 1 lines [[StrCell (str ''Line Number''), StrCell (str ''Line Text'')]]
      in if length lines = 0 then csv_data @ [[IntCell 1, StrCell text]] else csv_data)"

text \<open>
  The end of \<open>_convert_to_csv_sync\<close>, after the rows are written: should the file have size
  zero, the rows are written again by hand; then the file is opened once more and its
  first line read, for the log.
\<close>

definition csv_verify :: "os \<Rightarrow> cell list list \<Rightarrow> path \<Rightarrow> fs \<Rightarrow> error option \<times> fs" where
  "csv_verify os csv_data output_path files =
     (case (if files output_path = Some []
            then write_file os output_path (BOM # csv_string_loop csv_data []) files
            else (None, files)) of
        (Some e, files1) \<Rightarrow> (Some e, files1)
      | (None, files1) \<Rightarrow>
          if files1 output_path \<noteq> None
          then (case read_text os files1 output_path of
                  Inl e \<Rightarrow> (Some e, files1)
                | Inr first_lines \<Rightarrow> (None, files1))
          else (None, files1))"

text \<open>
  \<open>_convert_to_csv_sync\<close>: the directory of the output is made, the file opened and the
  rows written through the CSV writer. Its handler logs the exception and raises it again.
\<close>

definition convert_to_csv_sync :: "os \<Rightarrow> pystr \<Rightarrow> path \<Rightarrow> fs \<Rightarrow> error option \<times> fs" where
  "convert_to_csv_sync os text output_path files =
     (case mkdir_error os (parent output_path) of Some e \<Rightarrow> (Some e, files)
      | None \<Rightarrow>
          let csv_data = line_csv_data text
          in (case open_error os output_path of Some e \<Rightarrow> (Some e, files)
              | None \<Rightarrow>
                  (case writerows csv_data [] of
                     (Some e, written) \<Rightarrow> (Some e, files(output_path \<mapsto> written))
                   | (None, written) \<Rightarrow>
                       csv_verify os csv_data output_path (files(output_path \<mapsto> written)))))"

text \<open>\<open>_write_raw_txt\<close>. Its handler logs the exception and raises it again.\<close>

definition write_raw_txt :: "os \<Rightarrow> pystr \<Rightarrow> pystr \<Rightarrow> path \<Rightarrow> fs \<Rightarrow> error option \<times> fs" where
  "write_raw_txt os linesep text output_path files =
     (case mkdir_error os (parent output_path) of Some e \<Rightarrow> (Some e, files)
      | None \<Rightarrow> write_file os output_path (text_mode_write linesep text) files)"

text \<open>\<open>_format_text_for_txt\<close>; nothing in its \<open>try\<close> block raises on a string.\<close>

definition format_text_for_txt :: "pystr \<Rightarrow> pystr" where
  "format_text_for_txt text =
     (let words' = py_split_ws text;
          paragraphs' = split_paragraphs text
      in replicate 50 61 @ [LF] @ str ''EXTRACTED DOCUMENT TEXT'' @ [LF] @ replicate 50 61 @ [LF, LF]
         @ str ''Document Statistics:'' @ [LF]
         @ str ''- Total Words: '' @ str_nat (length words') @ [LF]
         @ str ''- Total Paragraphs: '' @ str_nat (length paragraphs') @ [LF]
         @ str ''- Total Characters: '' @ str_nat (length text) @ [LF, LF]
         @ replicate 50 45 @ [LF] @ str ''DOCUMENT CONTENT'' @ [LF] @ replicate 50 45 @ [LF, LF]
         @ text
         @ [LF, LF] @ replicate 50 61 @ [LF] @ str ''End of Document'' @ [LF] @ replicate 50 61 @ [LF])"

text \<open>\<open>_convert_to_txt\<close>. Its handler logs the exception and raises it again.\<close>

definition convert_to_txt :: "os \<Rightarrow> pystr \<Rightarrow> pystr \<Rightarrow> path \<Rightarrow> fs \<Rightarrow> error option \<times> fs" where
  "convert_to_txt os linesep text output_path files =
     write_file os output_path (text_mode_write linesep (format_text_for_txt text)) files"

subsection \<open>JSON\<close>

text \<open>The values \<open>_convert_to_json\<close> builds: integers, strings, lists, and dictionaries in insertion order.\<close>

datatype json = JInt int | JStr pystr | JList "json list" | JDict "(pystr \<times> json) list"

text \<open>
  \<open>json.dumps(value, indent=2, ensure_ascii=False)\<close>. In a string, the backslash, the
  double quote and the control characters below \<open>U+0020\<close> are escaped and every other
  code point is written as it is; a non-empty list or dictionary has one item per line,
  indented by two spaces per level.
\<close>

definition hex_digit :: "nat \<Rightarrow> nat" where
  "hex_digit d = (if d < 10 then 48 + d else 87 + d)"

definition json_escape :: "nat \<Rightarrow> pystr" where
  "json_escape c =
     (if c = 92 then [92, 92] else if c = 34 then [92, 34]
      else if c = 8 then [92, 98] else if c = 12 then [92, 102]
      else if c = LF then [92, 110] else if c = CR then [92, 114] else if c = 9 then [92, 116]
      else if c < 32 then [92, 117, 48, 48, hex_digit (c div 16), hex_digit (c mod 16)]
      else [c])"

definition encode_basestring :: "pystr \<Rightarrow> pystr" where
  "encode_basestring s = [34] @ concat (map json_escape s) @ [34]"

definition newline_indent :: "nat \<Rightarrow> pystr" where
  "newline_indent level = LF # replicate (2 * level) 32"

fun json_encode :: "nat \<Rightarrow> json \<Rightarrow> pystr" where
  "json_encode level (JInt i) = str_int i"
| "json_encode level (JStr s) = encode_basestring s"
| "json_encode level (JList xs) =
     (if xs = [] then str ''[]''
      else [91] @ newline_indent (level + 1)
           @ py_join ([44] @ newline_indent (level + 1)) (map (json_encode (level + 1)) xs)
           @ newline_indent level @ [93])"
| "json_encode level (JDict kvs) =
     (if kvs = [] then str ''{}''
      else [123] @ newline_indent (level + 1)
           @ py_join ([44] @ newline_indent (level + 1))
               (map (\<lambda>kv. encode_basestring (fst kv) @ [58, 32] @ json_encode (level + 1) (snd kv)) kvs)
           @ newline_indent level @ [125])"

definition json_dumps :: "json \<Rightarrow> pystr" where
  "json_dumps v = json_encode 0 v"

text \<open>The dictionary \<open>json_data\<close> of \<open>_convert_to_json\<close>.\<close>

definition json_data :: "pystr \<Rightarrow> json" where
  "json_data text =
     (let structured_data = parse_text_to_structured_data text
      in JDict
          [(str ''document_info'', JDict
              [(str ''total_pages'', JInt (int (page_count structured_data))),
               (str ''total_paragraphs'', JInt (int (length (paragraphs structured_data)))),
               (str ''total_words'', JInt (int (length (py_split_ws text)))),
               (str ''total_characters'', JInt (int (length text)))]),
           (str ''content'', JDict
              [(str ''full_text'', JStr text),
               (str ''paragraphs'', JList (map JStr (paragraphs structured_data))),
               (str ''sentences'', JList (map JStr (sentences structured_data))),
               (str ''words'', JList (map JStr (words structured_data)))]),
           (str ''metadata'', JDict
              [(str ''extraction_method'', JStr (str ''OCR'')),
               (str ''format'', JStr (str ''json''))])])"

text \<open>
  \<open>_convert_to_json\<close>: the file is opened in text mode with the strict \<open>utf-8\<close> codec, and
  the encoded document written to it. Its handler logs the exception and raises it again.
\<close>

definition convert_to_json :: "os \<Rightarrow> pystr \<Rightarrow> pystr \<Rightarrow> path \<Rightarrow> fs \<Rightarrow> error option \<times> fs" where
  "convert_to_json os linesep text output_path files =
     write_file os output_path (text_mode_write linesep (json_dumps (json_data text))) files"

subsection \<open>\<open>convert_to_format\<close>\<close>

text \<open>
  \<open>convert_to_format\<close> on a platform whose line separator is \<open>linesep\<close>. Its handler logs
  the exception and raises it again; what was written before the exception stays.
\<close>

definition convert_to_format ::
    "os \<Rightarrow> pystr \<Rightarrow> pystr \<Rightarrow> path \<Rightarrow> pystr \<Rightarrow> fs \<Rightarrow> error option \<times> fs" where
  "convert_to_format os linesep text output_path format_type files =
     (if format_type = str ''json'' then convert_to_json os linesep text output_path files
      else if format_type = str ''csv'' then
        (case with_suffix output_path (str ''.txt'') of Inl e \<Rightarrow> (Some e, files)
         | Inr txt_path \<Rightarrow>
             (case write_raw_txt os linesep text txt_path files of
                (Some e, files1) \<Rightarrow> (Some e, files1)
              | (None, files1) \<Rightarrow>
                  (case read_text os files1 txt_path of Inl e \<Rightarrow> (Some e, files1)
                   | Inr txt_content \<Rightarrow> convert_to_csv_sync os txt_content output_path files1)))
      else if format_type = str ''txt'' then convert_to_txt os linesep text output_path files
      else (Some (ValueError (str ''Unsupported output format: '' @ format_type)), files))"

section \<open>The caller: \<open>upload_file\<close>\<close>

text \<open>
  The exception of the web framework, with its status code. Its detail is kept as a
  constructor: \<open>FileTypeNotSupported\<close> and \<open>OutputFormatNotSupported\<close> name the rejected
  value (the message lists the allowed ones, a Python set in no fixed order),
  \<open>NoTextExtracted\<close> is ``No text could be extracted from the document. Please ensure the
  document contains readable text.'', \<open>ErrorProcessingFile\<close> holds \<open>str(e)\<close>.
\<close>

datatype detail = FileTypeNotSupported pystr | OutputFormatNotSupported pystr
  | NoTextExtracted | ErrorProcessingFile pystr

datatype http_exception = HTTPException nat detail

record response =
  message :: pystr
  file_id :: pystr
  output_format :: pystr
  download_url :: pystr

text \<open>\<open>str(e)\<close>; the message of the codec, which names the place of the surrogate, is abbreviated.\<close>

fun error_str :: "error \<Rightarrow> pystr" where
  "error_str (ValueError m) = m"
| "error_str (LibraryError m) = m"
| "error_str UnicodeEncodeError = str ''surrogates not allowed''"
| "error_str (OSError m) = m"

definition allowed_extensions :: "pystr list" where
  "allowed_extensions = [str ''.pdf'', str ''.png'', str ''.jpg'', str ''.jpeg'', str ''.tiff'', str ''.bmp'']"

definition allowed_formats :: "pystr list" where
  "allowed_formats = [str ''json'', str ''csv'', str ''txt'']"

text \<open>The end of \<open>upload_file\<close>: the uploaded file is removed and the answer returned.\<close>

definition upload_done :: "path \<Rightarrow> pystr \<Rightarrow> pystr \<Rightarrow> fs \<Rightarrow> (http_exception + response) \<times> fs" where
  "upload_done input_path fid fmt files =
     (Inr \<lparr>message = str ''File processed successfully'', file_id = fid, output_format = fmt,
           download_url = str ''/download/'' @ fid @ [46] @ fmt\<rparr>,
      files(input_path := None))"

text \<open>The answer to an exception that is not an \<open>HTTPException\<close>: status 500 with \<open>str(e)\<close>.\<close>

definition upload_failed :: "error \<Rightarrow> fs \<Rightarrow> (http_exception + response) \<times> fs" where
  "upload_failed e files = (Inl (HTTPException 500 (ErrorProcessingFile (error_str e))), files)"

text \<open>
  The module makes the directories \<open>uploads\<close> and \<open>outputs\<close> when it is loaded, and the
  files of a request have new names, made of the identifier that \<open>uuid4\<close> draws: while a
  request is served the operating system opens every path the request writes or reads.
\<close>

definition request_os :: os where
  "request_os = \<lparr>mkdir_error = (\<lambda>d. None), open_error = (\<lambda>p. None)\<rparr>"

text \<open>
  \<open>upload_file\<close>, given the parsed name of the uploaded file and its bytes, the requested
  format and the identifier \<open>uuid4\<close> draws. The file system is returned with the answer
  or the exception: what was written before an exception stays.
\<close>

definition upload_file ::
    "'img capabilities \<Rightarrow> pystr \<Rightarrow> path \<Rightarrow> pystr \<Rightarrow> pystr \<Rightarrow> pystr \<Rightarrow> fs
      \<Rightarrow> (http_exception + response) \<times> fs" where
  "upload_file cap linesep filename content fmt fid files =
     (let file_extension = py_lower (suffix_of (name filename))
      in if file_extension \<notin> set allowed_extensions
         then (Inl (HTTPException 400 (FileTypeNotSupported file_extension)), files)
         else if fmt \<notin> set allowed_formats
         then (Inl (HTTPException 400 (OutputFormatNotSupported fmt)), files)
         else
           let input_path = \<lparr>parent = [str ''uploads''], name = fid @ file_extension\<rparr>;
               files1 = files(input_path \<mapsto> content)
           in case process_file cap input_path of
                Inl e \<Rightarrow> upload_failed e files1
              | Inr extracted_text \<Rightarrow>
                  if py_strip extracted_text = []
                  then (Inl (HTTPException 400 NoTextExtracted), files1)
                  else
                    let output_path = \<lparr>parent = [str ''outputs''], name = fid @ [46] @ fmt\<rparr>
                    in if fmt = str ''csv''
                       then
                         let txt_path = \<lparr>parent = [str ''outputs''], name = fid @ str ''.txt''\<rparr>
                         in (case convert_to_txt request_os linesep extracted_text txt_path files1 of
                               (Some e, files2) \<Rightarrow> upload_failed e files2
                             | (None, files2) \<Rightarrow>
                                 (case read_text request_os files2 txt_path of
                                    Inl e \<Rightarrow> upload_failed e files2
                                  | Inr txt_content \<Rightarrow>
                                      (case convert_to_csv_sync request_os txt_content output_path files2 of
                                         (Some e, files3) \<Rightarrow> upload_failed e files3
                                       | (None, files3) \<Rightarrow> upload_done input_path fid fmt files3)))
                       else
                         (case convert_to_format request_os linesep extracted_text output_path fmt files1 of
                            (Some e, files2) \<Rightarrow> upload_failed e files2
                          | (None, files2) \<Rightarrow> upload_done input_path fid fmt files2))"

chapter \<open>The specification\<close>

section \<open>Notions of the specification\<close>

function spec_collapse_runs :: "pystr \<Rightarrow> pystr" where
  "spec_collapse_runs [] = []"
| "spec_collapse_runs (c # cs) =
     (if c = LF
      then (let run = takeWhile (\<lambda>x. x = LF) (c # cs); rest = dropWhile (\<lambda>x. x = LF) (c # cs)
            in (if 3 \<le> length run then [LF, LF] else run) @ spec_collapse_runs rest)
      else c # spec_collapse_runs cs)"
  by pat_completeness auto
termination
  by (relation "measure length") (auto simp: less_Suc_eq_le length_dropWhile_le)

definition no_lead_LF :: "pystr \<Rightarrow> bool" where
  "no_lead_LF s \<longleftrightarrow> (case s of [] \<Rightarrow> True | c # _ \<Rightarrow> c \<noteq> LF)"

text \<open>
  The normalization as the specification words it: trim each line, drop the lines that are
  empty after trimming, rejoin with single newlines, collapse every run of three or more
  newlines to two.
\<close>

definition spec_normalize :: "pystr \<Rightarrow> pystr" where
  "spec_normalize raw =
     spec_collapse_runs (py_join [LF] (filter (\<lambda>l. l \<noteq> []) (map py_strip (py_split [LF] raw))))"

text \<open>The lines of a text: none for the empty text.\<close>

definition lines_of :: "pystr \<Rightarrow> pystr list" where
  "lines_of s = (if s = [] then [] else py_split [LF] s)"

text \<open>The number of positions at which \<open>sub\<close> occurs in a text (overlaps counted).\<close>

fun occurrences :: "pystr \<Rightarrow> pystr \<Rightarrow> nat" where
  "occurrences sub [] = (if sub = [] then 1 else 0)"
| "occurrences sub (c # cs) = (if prefix sub (c # cs) then 1 else 0) + occurrences sub cs"

text \<open>The text blocks of the non-blank pages among \<open>pages\<close>, numbered from \<open>i + 1\<close>.\<close>

definition page_blocks :: "nat \<Rightarrow> pystr list \<Rightarrow> (nat \<times> pystr) list" where
  "page_blocks i pages = filter (\<lambda>(n, t). py_strip t \<noteq> []) (enumerate (i + 1) pages)"

definition block_text :: "nat \<times> pystr \<Rightarrow> pystr" where
  "block_text b = page_marker (fst b) @ [LF] @ snd b"

text \<open>
  The blocks \<open>_process_pdf\<close> joins: one per non-blank page, in page order, where \<open>raw\<close>
  gives the recognition result of each page image.
\<close>

definition document_blocks :: "('img \<Rightarrow> pystr) \<Rightarrow> 'img list \<Rightarrow> (nat \<times> pystr) list" where
  "document_blocks raw images = page_blocks 0 (map (\<lambda>img. clean_text (raw img)) images)"

text \<open>
  The structurer's steps as the specification words them: every CRLF, then every remaining
  CR, becomes one LF; the paragraphs are the trimmed blocks between double newlines that
  are not empty; the sentences are, paragraph by paragraph, the trimmed pieces between runs
  of terminators that are not empty.
\<close>

definition spec_line_endings :: "pystr \<Rightarrow> pystr" where
  "spec_line_endings text = py_replace [CR] [LF] (py_replace [CR, LF] [LF] text)"

definition spec_paragraphs :: "pystr \<Rightarrow> pystr list" where
  "spec_paragraphs text = filter (\<lambda>b. b \<noteq> []) (map py_strip (py_split [LF, LF] text))"

text \<open>Cutting at runs of terminators, one character at a time; \<open>cur\<close> is the piece being read.\<close>

function spec_split_runs :: "pystr \<Rightarrow> pystr \<Rightarrow> pystr list" where
  "spec_split_runs cur [] = [cur]"
| "spec_split_runs cur (c # cs) =
     (if is_terminator c then cur # spec_split_runs [] (dropWhile is_terminator cs)
      else spec_split_runs (cur @ [c]) cs)"
  by pat_completeness auto
termination
  by (relation "measure (\<lambda>(cur, s). length s)") (auto simp: less_Suc_eq_le length_dropWhile_le)

definition spec_sentences :: "pystr list \<Rightarrow> pystr list" where
  "spec_sentences ps =
     concat (map (\<lambda>p. filter (\<lambda>x. x \<noteq> []) (map py_strip (spec_split_runs [] p))) ps)"

text \<open>
  A record of the CSV file as the specification has it: each field in double quotes, a
  double quote inside a field written twice, a comma between the two fields, CRLF at the
  end.
\<close>

definition spec_quoted :: "pystr \<Rightarrow> pystr" where
  "spec_quoted s = [34] @ concat (map (\<lambda>c. if c = 34 then [34, 34] else [c]) s) @ [34]"

definition spec_csv_row :: "pystr \<Rightarrow> pystr \<Rightarrow> pystr" where
  "spec_csv_row number line = spec_quoted number @ [44] @ spec_quoted line @ [CR, LF]"

text \<open>
  The CSV file of a text: the byte-order mark and the header row, then one row per line,
  numbered from 1 in decimal, or the one row of the whole text when it has no line.
\<close>

definition spec_csv_file :: "pystr \<Rightarrow> pystr" where
  "spec_csv_file text =
     BOM # spec_csv_row (str ''Line Number'') (str ''Line Text'')
     @ (if py_splitlines text = [] then spec_csv_row (str ''1'') text
        else concat (map (\<lambda>i. spec_csv_row (str_nat (i + 1)) (py_splitlines text ! i))
                       [0..<length (py_splitlines text)]))"

section \<open>Reading JSON back\<close>

text \<open>\<open>obj[key]\<close> on a parsed value, \<open>None\<close> where Python raises.\<close>

fun json_get :: "json \<Rightarrow> pystr \<Rightarrow> json option" where
  "json_get (JDict kvs) key = map_of kvs key"
| "json_get _ key = None"

text \<open>\<open>obj[k1][k2]\<close>.\<close>

definition json_get2 :: "json \<Rightarrow> pystr \<Rightarrow> pystr \<Rightarrow> json option" where
  "json_get2 obj k1 k2 = (case json_get obj k1 of None \<Rightarrow> None | Some v \<Rightarrow> json_get v k2)"

text \<open>
  A parser for the JSON texts that hold strings, integers, lists and dictionaries, as
  \<open>json.loads\<close> reads them. The list \<open>fuel\<close> bounds the depth of the recursion.
\<close>

definition is_json_ws :: "nat \<Rightarrow> bool" where
  "is_json_ws c \<longleftrightarrow> c = 32 \<or> c = LF \<or> c = CR \<or> c = 9"

definition skip_ws :: "pystr \<Rightarrow> pystr" where
  "skip_ws s = dropWhile is_json_ws s"

definition hex_value :: "nat \<Rightarrow> nat option" where
  "hex_value c =
     (if 48 \<le> c \<and> c \<le> 57 then Some (c - 48)
      else if 97 \<le> c \<and> c \<le> 102 then Some (c - 87)
      else if 65 \<le> c \<and> c \<le> 70 then Some (c - 55)
      else None)"

definition unescape :: "nat \<Rightarrow> nat option" where
  "unescape e =
     (if e = 34 \<or> e = 92 \<or> e = 47 then Some e
      else if e = 98 then Some 8 else if e = 102 then Some 12
      else if e = 110 then Some LF else if e = 114 then Some CR else if e = 116 then Some 9
      else None)"

fun parse_string_chars :: "pystr \<Rightarrow> pystr \<Rightarrow> (pystr \<times> pystr) option" where
  "parse_string_chars acc [] = None"
| "parse_string_chars acc [c] = (if c = 34 then Some (acc, []) else None)"
| "parse_string_chars acc (c # e # cs) =
     (if c = 34 then Some (acc, e # cs)
      else if c = 92 then
        (if e = 117 then
           (case cs of
              h1 # h2 # h3 # h4 # rest \<Rightarrow>
                (case (hex_value h1, hex_value h2, hex_value h3, hex_value h4) of
                   (Some a, Some b, Some c', Some d) \<Rightarrow>
                     parse_string_chars (acc @ [((a * 16 + b) * 16 + c') * 16 + d]) rest
                 | _ \<Rightarrow> None)
            | _ \<Rightarrow> None)
         else (case unescape e of Some u \<Rightarrow> parse_string_chars (acc @ [u]) cs | None \<Rightarrow> None))
      else if c < 32 then None
      else parse_string_chars (acc @ [c]) (e # cs))"

definition is_digit :: "nat \<Rightarrow> bool" where
  "is_digit c \<longleftrightarrow> 48 \<le> c \<and> c \<le> 57"

definition parse_int :: "pystr \<Rightarrow> (int \<times> pystr) option" where
  "parse_int s =
     (let neg = (s \<noteq> [] \<and> hd s = 45);
          s' = (if neg then tl s else s);
          ds = takeWhile is_digit s'
      in if ds = [] then None
         else Some ((if neg then - 1 else 1) * int (foldl (\<lambda>a d. 10 * a + (d - 48)) 0 ds),
                    dropWhile is_digit s'))"

fun parse_value :: "pystr \<Rightarrow> pystr \<Rightarrow> (json \<times> pystr) option"
  and parse_items :: "pystr \<Rightarrow> pystr \<Rightarrow> (json list \<times> pystr) option"
  and parse_members :: "pystr \<Rightarrow> pystr \<Rightarrow> ((pystr \<times> json) list \<times> pystr) option" where
  "parse_value [] s = None"
| "parse_value (f # fuel) s =
     (if s = [] then None
      else if hd s = 34 then map_option (\<lambda>(x, r). (JStr x, r)) (parse_string_chars [] (tl s))
      else if hd s = 91 then
        (let r = skip_ws (tl s)
         in if r \<noteq> [] \<and> hd r = 93 then Some (JList [], tl r)
            else map_option (\<lambda>(xs, r'). (JList xs, r')) (parse_items fuel r))
      else if hd s = 123 then
        (let r = skip_ws (tl s)
         in if r \<noteq> [] \<and> hd r = 125 then Some (JDict [], tl r)
            else map_option (\<lambda>(kvs, r'). (JDict kvs, r')) (parse_members fuel r))
      else map_option (\<lambda>(i, r). (JInt i, r)) (parse_int s))"
| "parse_items [] s = None"
| "parse_items (f # fuel) s =
     (case parse_value fuel s of None \<Rightarrow> None
      | Some (v, r) \<Rightarrow>
          (let r' = skip_ws r
           in if r' \<noteq> [] \<and> hd r' = 44 then
                (case parse_items fuel (skip_ws (tl r')) of None \<Rightarrow> None
                 | Some (vs, r'') \<Rightarrow> Some (v # vs, r''))
              else if r' \<noteq> [] \<and> hd r' = 93 then Some ([v], tl r')
              else None))"
| "parse_members [] s = None"
| "parse_members (f # fuel) s =
     (if s \<noteq> [] \<and> hd s = 34 then
        (case parse_string_chars [] (tl s) of None \<Rightarrow> None
         | Some (k, r) \<Rightarrow>
             (let r1 = skip_ws r
              in if r1 \<noteq> [] \<and> hd r1 = 58 then
                   (case parse_value fuel (skip_ws (tl r1)) of None \<Rightarrow> None
                    | Some (v, r2) \<Rightarrow>
                        (let r3 = skip_ws r2
                         in if r3 \<noteq> [] \<and> hd r3 = 44 then
                              (case parse_members fuel (skip_ws (tl r3)) of None \<Rightarrow> None
                               | Some (kvs, r4) \<Rightarrow> Some ((k, v) # kvs, r4))
                            else if r3 \<noteq> [] \<and> hd r3 = 125 then Some ([(k, v)], tl r3)
                            else None))
                 else None))
      else None)"

definition json_loads :: "pystr \<Rightarrow> json option" where
  "json_loads s =
     (case parse_value (s @ s @ [0]) (skip_ws s) of None \<Rightarrow> None
      | Some (v, r) \<Rightarrow> if skip_ws r = [] then Some v else None)"

text \<open>Reading a JSON file back: the text-mode read, then the parser \<open>loads\<close>.\<close>

definition load_json_file :: "(pystr \<Rightarrow> json option) \<Rightarrow> os \<Rightarrow> fs \<Rightarrow> path \<Rightarrow> json option" where
  "load_json_file loads os files p =
     (case read_text os files p of Inl e \<Rightarrow> None | Inr s \<Rightarrow> loads s)"

text \<open>The code points of the strings of a value, keys included.\<close>

fun json_chars :: "json \<Rightarrow> nat set" where
  "json_chars (JInt i) = {}"
| "json_chars (JStr s) = set s"
| "json_chars (JList xs) = (\<Union>x\<in>set xs. json_chars x)"
| "json_chars (JDict kvs) = (\<Union>kv\<in>set kvs. set (fst kv) \<union> json_chars (snd kv))"

text \<open>The depth of recursion the parser needs for the encoding of a value.\<close>

fun json_fuel :: "json \<Rightarrow> nat" where
  "json_fuel (JInt i) = 1"
| "json_fuel (JStr s) = 1"
| "json_fuel (JList xs) = 1 + sum_list (map (\<lambda>x. 1 + json_fuel x) xs)"
| "json_fuel (JDict kvs) = 1 + sum_list (map (\<lambda>kv. 1 + json_fuel (snd kv)) kvs)"

text \<open>An encoded value starts with a quote, a bracket, a brace, a minus sign or a digit.\<close>

definition value_start :: "nat \<Rightarrow> bool" where
  "value_start c \<longleftrightarrow> c = 34 \<or> c = 91 \<or> c = 123 \<or> c = 45 \<or> is_digit c"

section \<open>Sample documents\<close>

text \<open>A three-page document whose second page is blank, for the closed instances below.\<close>

definition sample_raw :: "nat \<Rightarrow> pystr" where
  "sample_raw n = (if n = 0 then str ''  Hello \<newline>\<newline> world '' else if n = 1 then [32, 12] else str ''Bye'')"

definition sample_cap :: "nat capabilities" where
  "sample_cap = \<lparr>image_to_string = (\<lambda>n. Inr (sample_raw n)),
     convert_from_path = (\<lambda>p. Inr [0, 1, 2]),
     image_open = (\<lambda>p. Inl (LibraryError [])),
     mode_is_RGB = (\<lambda>n. True),
     convert_RGB = Inr\<rparr>"

definition sample_pdf :: path where
  "sample_pdf = \<lparr>parent = [str ''uploads''], name = str ''scan.pdf''\<rparr>"

text \<open>A scan of two pages on which nothing is recognized but a space and a form feed.\<close>

definition blank_cap :: "nat capabilities" where
  "blank_cap = \<lparr>image_to_string = (\<lambda>n. Inr [32, 12]),
     convert_from_path = (\<lambda>p. Inr [0, 1]),
     image_open = (\<lambda>p. Inl (LibraryError [])),
     mode_is_RGB = (\<lambda>n. True),
     convert_RGB = Inr\<rparr>"

definition blank_upload :: path where
  "blank_upload = \<lparr>parent = [str ''uploads''], name = str ''id1.pdf''\<rparr>"

definition sample_csv_path :: path where
  "sample_csv_path = \<lparr>parent = [str ''outputs''], name = str ''out.csv''\<rparr>"

definition sample_txt_path :: path where
  "sample_txt_path = \<lparr>parent = [str ''outputs''], name = str ''out.txt''\<rparr>"

text \<open>The place the sample document is written to.\<close>

definition sample_json_path :: path where
  "sample_json_path = \<lparr>parent = [str ''outputs''], name = str ''out.json''\<rparr>"

text \<open>An operating system that makes every directory and opens every path.\<close>

definition sample_os :: os where
  "sample_os = \<lparr>mkdir_error = (\<lambda>d. None), open_error = (\<lambda>p. None)\<rparr>"

text \<open>One on which \<open>outputs\<close> is a directory, as it is once the module is loaded.\<close>

definition outputs_path :: path where
  "outputs_path = \<lparr>parent = [], name = str ''outputs''\<rparr>"

definition outputs_os :: os where
  "outputs_os =
     \<lparr>mkdir_error = (\<lambda>d. None),
      open_error = (\<lambda>p. if p = outputs_path then Some (OSError (str ''Is a directory'')) else None)\<rparr>"

text \<open>A text with a lone surrogate, \<open>'a\ud800'\<close>.\<close>

definition surrogate_text :: pystr where
  "surrogate_text = [97, 55296]"

chapter \<open>Lemmas\<close>

lemma dropWhile_rev_hd: "dropWhile P xs \<noteq> [] \<Longrightarrow> \<not> P (hd (dropWhile P xs))"
  by (simp add: hd_dropWhile)

lemma py_strip_eq_Nil_iff: "py_strip s = [] \<longleftrightarrow> (\<forall>c\<in>set s. is_space c)"
proof
  assume "py_strip s = []"
  then have all: "\<forall>x\<in>set (dropWhile is_space s). is_space x"
    by (simp add: py_strip_def dropWhile_eq_Nil_conv)
  have "dropWhile is_space s = []"
  proof (rule ccontr)
    assume ne: "dropWhile is_space s \<noteq> []"
    then have "\<not> is_space (hd (dropWhile is_space s))" by (rule dropWhile_rev_hd)
    moreover from ne have "hd (dropWhile is_space s) \<in> set (dropWhile is_space s)" by simp
    ultimately show False using all by blast
  qed
  then show "\<forall>c\<in>set s. is_space c" by (simp add: dropWhile_eq_Nil_conv)
next
  assume "\<forall>c\<in>set s. is_space c"
  then have "dropWhile is_space s = []" by (simp add: dropWhile_eq_Nil_conv)
  then show "py_strip s = []" by (simp add: py_strip_def del: dropWhile_eq_Nil_conv)
qed

lemma py_strip_last: "py_strip s \<noteq> [] \<Longrightarrow> \<not> is_space (last (py_strip s))"
proof -
  assume a: "py_strip s \<noteq> []"
  let ?r = "dropWhile is_space (rev (dropWhile is_space s))"
  from a have ne: "?r \<noteq> []" by (simp add: py_strip_def)
  then have "\<not> is_space (hd ?r)" by (rule dropWhile_rev_hd)
  with ne show ?thesis by (simp add: py_strip_def last_rev)
qed

lemma py_strip_hd: "py_strip s \<noteq> [] \<Longrightarrow> \<not> is_space (hd (py_strip s))"
proof -
  assume a: "py_strip s \<noteq> []"
  let ?d = "dropWhile is_space s"
  from a have ne: "?d \<noteq> []"
    by (auto simp: py_strip_eq_Nil_iff dropWhile_eq_Nil_conv)
  then have h: "\<not> is_space (hd ?d)" by (rule dropWhile_rev_hd)
  from ne obtain x xs where d: "?d = x # xs" by (cases ?d) auto
  with h have x: "\<not> is_space x" by simp
  have "rev ?d = rev xs @ [x]" using d by simp
  then have "dropWhile is_space (rev ?d) = dropWhile is_space (rev xs) @ [x]"
    using x by (simp add: dropWhile_append)
  then have "py_strip s = x # rev (dropWhile is_space (rev xs))"
    by (simp add: py_strip_def)
  with x show ?thesis by simp
qed

lemma py_strip_id: "s \<noteq> [] \<Longrightarrow> \<not> is_space (hd s) \<Longrightarrow> \<not> is_space (last s) \<Longrightarrow> py_strip s = s"
proof -
  assume a: "s \<noteq> []" "\<not> is_space (hd s)" "\<not> is_space (last s)"
  then have 1: "dropWhile is_space s = s" by (cases s) auto
  from a have "rev s \<noteq> []" "\<not> is_space (hd (rev s))" by (auto simp: hd_rev)
  then have 2: "dropWhile is_space (rev s) = rev s" by (cases "rev s") auto
  show ?thesis by (simp add: py_strip_def 1 2)
qed

lemma py_strip_idem: "py_strip (py_strip s) = py_strip s"
proof (cases "py_strip s = []")
  case True
  have "py_strip [] = []" by (simp add: py_strip_def)
  with True show ?thesis by simp
next
  case False
  then show ?thesis by (intro py_strip_id py_strip_hd py_strip_last)
qed

lemma contains_iff: "contains sub s \<longleftrightarrow> (\<exists>p q. s = p @ sub @ q)"
proof (induction s)
  case Nil
  then show ?case by auto
next
  case (Cons c cs)
  show ?case
  proof
    assume "contains sub (c # cs)"
    then consider "prefix sub (c # cs)" | "contains sub cs" by auto
    then show "\<exists>p q. c # cs = p @ sub @ q"
    proof cases
      case 1
      then obtain q where "c # cs = sub @ q" by (auto simp: prefix_def)
      then have "c # cs = [] @ sub @ q" by simp
      then show ?thesis by blast
    next
      case 2
      with Cons obtain p q where "cs = p @ sub @ q" by auto
      then have "c # cs = (c # p) @ sub @ q" by simp
      then show ?thesis by blast
    qed
  next
    assume "\<exists>p q. c # cs = p @ sub @ q"
    then obtain p q where pq: "c # cs = p @ sub @ q" by auto
    show "contains sub (c # cs)"
    proof (cases p)
      case Nil
      with pq have "prefix sub (c # cs)" by (simp add: prefix_def)
      then show ?thesis by simp
    next
      case (Cons a p')
      with pq have "cs = p' @ sub @ q" by simp
      with Cons.IH show ?thesis by auto
    qed
  qed
qed

lemma py_split_no_sep: "\<not> contains sep s \<Longrightarrow> py_split sep s = [s]"
  by (induction s) auto

lemma py_split_piece:
  assumes "sep \<noteq> []" and "\<forall>i<length x. \<not> prefix sep (drop i (x @ sep))"
  shows "py_split sep (x @ sep @ rest) = x # py_split sep rest"
  using assms(2)
proof (induction x)
  case Nil
  from assms(1) obtain c cs where sep: "sep = c # cs" by (cases sep) auto
  have "py_split sep (sep @ rest) = [] # py_split sep (drop (length sep) (sep @ rest))"
    unfolding sep by simp
  then show ?case by simp
next
  case (Cons a x)
  from Cons.prems have 0: "\<not> prefix sep ((a # x) @ sep)" by force
  have "\<forall>i<length x. \<not> prefix sep (drop i (x @ sep))"
  proof (intro allI impI)
    fix i assume "i < length x"
    with Cons.prems have "\<not> prefix sep (drop (Suc i) ((a # x) @ sep))" by (metis Suc_less_eq length_Cons)
    then show "\<not> prefix sep (drop i (x @ sep))" by simp
  qed
  then have IH: "py_split sep (x @ sep @ rest) = x # py_split sep rest" by (rule Cons.IH)
  have "\<not> prefix sep (a # x @ sep @ rest)"
  proof
    assume "prefix sep (a # x @ sep @ rest)"
    then have "prefix sep (((a # x) @ sep) @ rest)" by simp
    then have "prefix sep ((a # x) @ sep)"
      unfolding prefix_append [of sep "(a # x) @ sep" rest] by auto
    with 0 show False by simp
  qed
  with IH show ?case by simp
qed

lemma py_split_py_join:
  assumes "sep \<noteq> []" and "xs \<noteq> []"
    and "\<forall>x\<in>set (butlast xs). \<forall>i<length x. \<not> prefix sep (drop i (x @ sep))"
    and "\<not> contains sep (last xs)"
  shows "py_split sep (py_join sep xs) = xs"
  using assms
proof (induction sep xs rule: py_join.induct)
  case (1 sep)
  then show ?case by simp
next
  case (2 sep x)
  then show ?case by (simp add: py_split_no_sep)
next
  case (3 sep x y ys)
  from 3 have IH: "py_split sep (py_join sep (y # ys)) = y # ys" by simp
  from 3 have "\<forall>i<length x. \<not> prefix sep (drop i (x @ sep))" by simp
  from py_split_piece [OF "3.prems"(1) this, of "py_join sep (y # ys)"] IH
  show ?case by simp
qed

lemma clean_loop_filter:
  "clean_loop lines acc = acc @ filter (\<lambda>l. l \<noteq> []) (map py_strip lines)"
  by (induction lines arbitrary: acc) (auto simp: Let_def)

lemma py_split_not_Nil: "py_split sep s \<noteq> []"
  by (induction sep s rule: py_split.induct) (auto split: list.splits)

lemma py_split_char_free: "p \<in> set (py_split [d] s) \<Longrightarrow> d \<notin> set p"
proof (induction s arbitrary: p)
  case Nil
  then show ?case by simp
next
  case (Cons c cs)
  show ?case
  proof (cases "c = d")
    case True
    with Cons show ?thesis by auto
  next
    case False
    obtain q qs where q: "py_split [d] cs = q # qs"
      using py_split_not_Nil [of "[d]" cs] by (cases "py_split [d] cs") auto
    with False Cons show ?thesis by auto
  qed
qed

lemma set_py_strip: "set (py_strip s) \<subseteq> set s"
proof -
  have "set (py_strip s) \<subseteq> set (dropWhile is_space s)"
    unfolding py_strip_def using set_dropWhileD by fastforce
  also have "\<dots> \<subseteq> set s"
    using set_dropWhileD by fastforce
  finally show ?thesis .
qed

lemma py_join_last_not_Nil: "xs \<noteq> [] \<Longrightarrow> last xs \<noteq> [] \<Longrightarrow> py_join sep xs \<noteq> []"
  by (induction sep xs rule: py_join.induct) auto

lemma contains_single: "contains [d] s \<longleftrightarrow> d \<in> set s"
  by (induction s) auto

lemma py_join_not_Nil: "xs \<noteq> [] \<Longrightarrow> hd xs \<noteq> [] \<Longrightarrow> py_join sep xs \<noteq> []"
  by (induction sep xs rule: py_join.induct) auto

lemma hd_py_join: "xs \<noteq> [] \<Longrightarrow> hd xs \<noteq> [] \<Longrightarrow> hd (py_join sep xs) = hd (hd xs)"
  by (induction sep xs rule: py_join.induct) auto

lemma last_py_join: "xs \<noteq> [] \<Longrightarrow> last xs \<noteq> [] \<Longrightarrow> last (py_join sep xs) = last (last xs)"
  by (induction sep xs rule: py_join.induct) (auto simp: py_join_last_not_Nil)

lemma no_double_line_break:
  assumes "LF \<notin> set x" and "rest \<noteq> []" and "hd rest \<noteq> LF" and "\<not> contains [LF, LF] rest"
  shows "\<not> contains [LF, LF] (x @ [LF] @ rest)"
  using assms(1)
proof (induction x)
  case Nil
  from assms(2,3) have "\<not> prefix [LF] rest" by (cases rest) auto
  with assms(4) show ?case by simp
next
  case (Cons a x)
  then show ?case by simp
qed

lemma py_join_lines_no_double:
  "\<forall>l\<in>set ls. l \<noteq> [] \<and> LF \<notin> set l \<Longrightarrow> \<not> contains [LF, LF] (py_join [LF] ls)"
proof (induction "[LF]" ls rule: py_join.induct)
  case 1
  then show ?case by simp
next
  case (2 x)
  have "\<not> contains [LF, LF] x" if "LF \<notin> set x" for x :: pystr
    using that by (induction x) auto
  with 2 show ?case by simp
next
  case (3 x y ys)
  then have rest: "\<not> contains [LF, LF] (py_join [LF] (y # ys))" by simp
  from 3 have "py_join [LF] (y # ys) \<noteq> []" by (intro py_join_not_Nil) auto
  moreover have "hd (py_join [LF] (y # ys)) \<noteq> LF"
  proof -
    from 3 have y: "y \<noteq> []" "LF \<notin> set y" by auto
    then have "hd y \<in> set y" by simp
    with y have "hd y \<noteq> LF" by metis
    with y show ?thesis by (simp add: hd_py_join)
  qed
  moreover from 3 have "LF \<notin> set x" by simp
  ultimately have "\<not> contains [LF, LF] (x @ [LF] @ py_join [LF] (y # ys))"
    using rest by (intro no_double_line_break)
  then show ?case by simp
qed

lemma contains_triple_double: "contains [LF, LF, LF] s \<Longrightarrow> contains [LF, LF] s"
proof -
  assume "contains [LF, LF, LF] s"
  then obtain p q where "s = p @ [LF, LF, LF] @ q" by (auto simp: contains_iff)
  then have "s = p @ [LF, LF] @ (LF # q)" by simp
  then show ?thesis unfolding contains_iff by blast
qed

lemma collapse_newlines_id: "\<not> contains [LF, LF, LF] s \<Longrightarrow> collapse_newlines s = s"
  by (subst collapse_newlines.simps) simp

lemma cleaned_line:
  assumes "l \<in> set (clean_loop (py_split [LF] text) [])"
  shows "l \<noteq> [] \<and> LF \<notin> set l \<and> \<not> is_space (hd l) \<and> \<not> is_space (last l)"
proof -
  from assms obtain p where p: "p \<in> set (py_split [LF] text)" and l: "l = py_strip p" and ne: "l \<noteq> []"
    by (auto simp: clean_loop_filter)
  from p have "LF \<notin> set p" by (rule py_split_char_free)
  with l set_py_strip [of p] have "LF \<notin> set l" by auto
  with ne l show ?thesis by (auto simp: py_strip_hd py_strip_last)
qed

lemma no_lead_LF_dropWhile: "no_lead_LF (dropWhile (\<lambda>x. x = LF) s)"
  by (induction s) (auto simp: no_lead_LF_def)

lemma run_split: "s = replicate (length (takeWhile (\<lambda>x. x = LF) s)) LF @ dropWhile (\<lambda>x. x = LF) s"
  by (induction s) auto

lemma takeWhile_run: "no_lead_LF rest \<Longrightarrow> takeWhile (\<lambda>x. x = LF) (replicate n LF @ rest) = replicate n LF"
  by (induction n) (auto simp: no_lead_LF_def split: list.splits)

lemma dropWhile_run: "no_lead_LF rest \<Longrightarrow> dropWhile (\<lambda>x. x = LF) (replicate n LF @ rest) = rest"
  by (induction n) (auto simp: no_lead_LF_def split: list.splits)

lemma spec_collapse_run:
  assumes "no_lead_LF rest" and "0 < n"
  shows "spec_collapse_runs (replicate n LF @ rest)
       = (if 3 \<le> n then [LF, LF] else replicate n LF) @ spec_collapse_runs rest"
proof -
  from assms(2) obtain m where n: "n = Suc m" by (cases n) auto
  have "replicate n LF @ rest = LF # (replicate m LF @ rest)" by (simp add: n)
  then have "spec_collapse_runs (replicate n LF @ rest)
      = (let run = takeWhile (\<lambda>x. x = LF) (replicate n LF @ rest);
             rest' = dropWhile (\<lambda>x. x = LF) (replicate n LF @ rest)
         in (if 3 \<le> length run then [LF, LF] else run) @ spec_collapse_runs rest')"
    by (simp del: replicate_Suc)
  then show ?thesis
    by (simp add: takeWhile_run [OF assms(1)] dropWhile_run [OF assms(1)] Let_def)
qed

lemma py_replace_no_lead: "no_lead_LF s \<Longrightarrow> no_lead_LF (py_replace [LF, LF, LF] [LF, LF] s)"
  by (cases s) (auto simp: no_lead_LF_def)

lemma py_replace_run:
  "no_lead_LF rest \<Longrightarrow>
   py_replace [LF, LF, LF] [LF, LF] (replicate n LF @ rest)
     = replicate (n - n div 3) LF @ py_replace [LF, LF, LF] [LF, LF] rest"
proof (induction n rule: less_induct)
  case (less n)
  consider "n = 0" | "n = 1" | "n = 2" | "3 \<le> n" by linarith
  then show ?case
  proof cases
    case 1
    then show ?thesis by simp
  next
    case 2
    with less.prems show ?thesis
      by (cases rest) (auto simp: no_lead_LF_def)
  next
    case 3
    then have "replicate n LF = [LF, LF]" by (simp add: numeral_2_eq_2)
    with 3 less.prems show ?thesis
      by (cases rest) (auto simp: no_lead_LF_def)
  next
    case 4
    then obtain m where n: "n = m + 3" by (metis add.commute le_Suc_ex)
    then have rep: "replicate n LF = LF # LF # LF # replicate m LF"
      by (simp add: numeral_3_eq_3)
    have "py_replace [LF, LF, LF] [LF, LF] (replicate n LF @ rest)
        = [LF, LF] @ py_replace [LF, LF, LF] [LF, LF] (replicate m LF @ rest)"
      by (simp add: rep)
    also have "\<dots> = [LF, LF] @ replicate (m - m div 3) LF @ py_replace [LF, LF, LF] [LF, LF] rest"
      using less.IH [of m] less.prems n by simp
    finally have step: "py_replace [LF, LF, LF] [LF, LF] (replicate n LF @ rest)
        = ([LF, LF] @ replicate (m - m div 3) LF) @ py_replace [LF, LF, LF] [LF, LF] rest"
      by simp
    have "n - n div 3 = Suc (Suc (m - m div 3))" using n by simp
    then have "[LF, LF] @ replicate (m - m div 3) LF = replicate (n - n div 3) LF" by simp
    with step show ?thesis by simp
  qed
qed

lemma spec_collapse_round:
  "spec_collapse_runs (py_replace [LF, LF, LF] [LF, LF] s) = spec_collapse_runs s"
proof (induction s rule: spec_collapse_runs.induct)
  case 1
  then show ?case by simp
next
  case (2 c cs)
  show ?case
  proof (cases "c = LF")
    case False
    with 2 show ?thesis by simp
  next
    case True
    define n where "n = length (takeWhile (\<lambda>x. x = LF) (c # cs))"
    define rest where "rest = dropWhile (\<lambda>x. x = LF) (c # cs)"
    have s: "c # cs = replicate n LF @ rest"
      unfolding n_def rest_def by (rule run_split)
    have nl: "no_lead_LF rest"
      unfolding rest_def by (rule no_lead_LF_dropWhile)
    from True have pos: "0 < n" by (simp add: n_def)
    from 2 True have IH: "spec_collapse_runs (py_replace [LF, LF, LF] [LF, LF] rest) = spec_collapse_runs rest"
      by (simp add: rest_def)
    have m: "0 < n - n div 3" using pos by linarith
    have "spec_collapse_runs (py_replace [LF, LF, LF] [LF, LF] (c # cs))
        = spec_collapse_runs (replicate (n - n div 3) LF @ py_replace [LF, LF, LF] [LF, LF] rest)"
      unfolding s by (simp only: py_replace_run [OF nl])
    also have "\<dots> = (if 3 \<le> n - n div 3 then [LF, LF] else replicate (n - n div 3) LF)
          @ spec_collapse_runs rest"
      by (simp only: spec_collapse_run [OF py_replace_no_lead [OF nl] m] IH)
    also have "(if 3 \<le> n - n div 3 then [LF, LF] else replicate (n - n div 3) LF)
        = (if 3 \<le> n then [LF, LF] else replicate n LF)"
    proof (cases "3 \<le> n")
      case False
      then have "n div 3 = 0" by simp
      with False show ?thesis by simp
    next
      case True
      then have "2 \<le> n - n div 3" by linarith
      then consider "n - n div 3 = 2" | "3 \<le> n - n div 3" by linarith
      then show ?thesis
      proof cases
        case 1
        with True show ?thesis by (simp add: numeral_2_eq_2)
      next
        case 2
        with True show ?thesis by simp
      qed
    qed
    also have "\<dots> @ spec_collapse_runs rest = spec_collapse_runs (c # cs)"
      unfolding s by (simp only: spec_collapse_run [OF nl pos])
    finally show ?thesis .
  qed
qed

lemma spec_collapse_fixed: "\<not> contains [LF, LF, LF] s \<Longrightarrow> spec_collapse_runs s = s"
proof (induction s rule: spec_collapse_runs.induct)
  case 1
  then show ?case by simp
next
  case (2 c cs)
  show ?case
  proof (cases "c = LF")
    case False
    with 2 show ?thesis by simp
  next
    case True
    define n where "n = length (takeWhile (\<lambda>x. x = LF) (c # cs))"
    define rest where "rest = dropWhile (\<lambda>x. x = LF) (c # cs)"
    have s: "c # cs = replicate n LF @ rest"
      unfolding n_def rest_def by (rule run_split)
    have nl: "no_lead_LF rest"
      unfolding rest_def by (rule no_lead_LF_dropWhile)
    from True have pos: "0 < n" by (simp add: n_def)
    have small: "\<not> 3 \<le> n"
    proof
      assume "3 \<le> n"
      then obtain m where "n = m + 3" by (metis add.commute le_Suc_ex)
      then have "replicate n LF = [] @ [LF, LF, LF] @ replicate m LF"
        by (simp add: numeral_3_eq_3 replicate_app_Cons_same)
      then have "c # cs = [] @ [LF, LF, LF] @ (replicate m LF @ rest)" using s by simp
      then have "contains [LF, LF, LF] (c # cs)" unfolding contains_iff by blast
      with 2 show False by simp
    qed
    have "\<not> contains [LF, LF, LF] rest"
    proof
      assume "contains [LF, LF, LF] rest"
      then obtain p q where "rest = p @ [LF, LF, LF] @ q" unfolding contains_iff by blast
      then have "c # cs = (replicate n LF @ p) @ [LF, LF, LF] @ q" using s by simp
      then have "contains [LF, LF, LF] (c # cs)" unfolding contains_iff by blast
      with 2 show False by simp
    qed
    with 2 True have "spec_collapse_runs rest = rest" by (simp add: rest_def)
    with small show ?thesis
      unfolding s by (simp only: spec_collapse_run [OF nl pos] if_False)
  qed
qed

lemma collapse_newlines_spec: "collapse_newlines s = spec_collapse_runs s"
proof (induction s rule: collapse_newlines.induct)
  case (1 s)
  show ?case
  proof (cases "contains [LF, LF, LF] s")
    case True
    then have "collapse_newlines s = collapse_newlines (py_replace [LF, LF, LF] [LF, LF] s)"
      by (subst collapse_newlines.simps) simp
    with 1 True show ?thesis by (simp add: spec_collapse_round)
  next
    case False
    then show ?thesis by (simp add: collapse_newlines_id spec_collapse_fixed)
  qed
qed

lemma page_blocks_Nil: "page_blocks i [] = []"
  by (simp add: page_blocks_def)

lemma page_blocks_Cons:
  "page_blocks i (t # ts) = (if py_strip t \<noteq> [] then [(i + 1, t)] else []) @ page_blocks (i + 1) ts"
  by (simp add: page_blocks_def)

lemma process_pages_blocks:
  assumes "\<forall>img\<in>set images. image_to_string cap img = Inr (raw img)"
  shows "process_pages cap i images acc
       = Inr (acc @ map block_text (page_blocks i (map (\<lambda>img. clean_text (raw img)) images)))"
  using assms
proof (induction images arbitrary: i acc)
  case Nil
  then show ?case by (simp add: page_blocks_Nil)
next
  case (Cons img images)
  then have ocr: "extract_text_from_image cap img = Inr (clean_text (raw img))"
    by (simp add: extract_text_from_image_def run_tesseract_ocr_def)
  from Cons have IH: "\<And>i acc. process_pages cap i images acc
       = Inr (acc @ map block_text (page_blocks i (map (\<lambda>img. clean_text (raw img)) images)))"
    by simp
  show ?case
    by (simp add: ocr IH page_blocks_Cons block_text_def)
qed

lemma page_blocks_indices_sorted: "sorted_wrt (<) (map fst (page_blocks i pages))"
proof -
  have "sorted_wrt (<) (map fst (enumerate (i + 1) pages))"
    by (simp only: map_fst_enumerate sorted_wrt_upt)
  then have "sorted_wrt (\<lambda>a b. fst a < fst b) (enumerate (i + 1) pages)"
    by (simp only: sorted_wrt_map)
  then have "sorted_wrt (\<lambda>a b. fst a < fst b) (page_blocks i pages)"
    unfolding page_blocks_def by (rule sorted_wrt_filter)
  then show ?thesis by (simp only: sorted_wrt_map)
qed

lemma page_blocks_set:
  "set (page_blocks i pages)
     = {(i + 1 + k, pages ! k) | k. k < length pages \<and> py_strip (pages ! k) \<noteq> []}"
proof (intro set_eqI iffI)
  fix b assume "b \<in> set (page_blocks i pages)"
  then have b: "i + 1 \<le> fst b" "fst b < length pages + (i + 1)" "pages ! (fst b - (i + 1)) = snd b"
    "py_strip (snd b) \<noteq> []"
    by (auto simp: page_blocks_def in_set_enumerate_eq)
  define k where "k = fst b - (i + 1)"
  with b have "b = (i + 1 + k, pages ! k)" "k < length pages" "py_strip (pages ! k) \<noteq> []"
    by (auto simp: prod_eq_iff)
  then show "b \<in> {(i + 1 + k, pages ! k) | k. k < length pages \<and> py_strip (pages ! k) \<noteq> []}"
    by blast
next
  fix b assume "b \<in> {(i + 1 + k, pages ! k) | k. k < length pages \<and> py_strip (pages ! k) \<noteq> []}"
  then obtain k where "b = (i + 1 + k, pages ! k)" "k < length pages" "py_strip (pages ! k) \<noteq> []"
    by blast
  then show "b \<in> set (page_blocks i pages)"
    by (simp add: page_blocks_def in_set_enumerate_eq)
qed

lemma occurrences_0_iff: "occurrences sub s = 0 \<longleftrightarrow> \<not> contains sub s"
  by (induction s) auto

lemma is_space_LF: "is_space LF"
  by (simp add: is_space_def)

lemma clean_text_join:
  "clean_text text = py_join [LF] (clean_loop (py_split [LF] text) [])"
proof (cases "text = []")
  case True
  have "py_strip [] = []" by (simp add: py_strip_def)
  with True show ?thesis by (simp add: clean_text_def)
next
  case False
  have "\<forall>l\<in>set (clean_loop (py_split [LF] text) []). l \<noteq> [] \<and> LF \<notin> set l"
    using cleaned_line by blast
  then have "\<not> contains [LF, LF] (py_join [LF] (clean_loop (py_split [LF] text) []))"
    by (rule py_join_lines_no_double)
  then have "\<not> contains [LF, LF, LF] (py_join [LF] (clean_loop (py_split [LF] text) []))"
    using contains_triple_double by blast
  with False show ?thesis by (simp add: clean_text_def collapse_newlines_id)
qed

lemma clean_text_no_double: "\<not> contains [LF, LF] (clean_text text)"
proof -
  have "\<forall>l\<in>set (clean_loop (py_split [LF] text) []). l \<noteq> [] \<and> LF \<notin> set l"
    using cleaned_line by blast
  then show ?thesis unfolding clean_text_join by (rule py_join_lines_no_double)
qed

lemma clean_text_ends:
  assumes "clean_text text \<noteq> []"
  shows "\<not> is_space (hd (clean_text text)) \<and> \<not> is_space (last (clean_text text))"
proof -
  let ?ls = "clean_loop (py_split [LF] text) []"
  from assms have ne: "?ls \<noteq> []" unfolding clean_text_join by auto
  then have "hd ?ls \<in> set ?ls" "last ?ls \<in> set ?ls" by simp_all
  then have h: "hd ?ls \<noteq> []" "\<not> is_space (hd (hd ?ls))" "last ?ls \<noteq> []" "\<not> is_space (last (last ?ls))"
    using cleaned_line by blast+
  with ne show ?thesis unfolding clean_text_join by (simp add: hd_py_join last_py_join)
qed

lemma lines_of_clean_text: "lines_of (clean_text text) = clean_loop (py_split [LF] text) []"
proof (cases "clean_text text = []")
  case True
  let ?ls = "clean_loop (py_split [LF] text) []"
  have "?ls = []"
  proof (rule ccontr)
    assume ne: "?ls \<noteq> []"
    then have "hd ?ls \<in> set ?ls" by simp
    then have "hd ?ls \<noteq> []" using cleaned_line by blast
    with ne have "py_join [LF] ?ls \<noteq> []" by (rule py_join_not_Nil)
    with True show False by (simp add: clean_text_join)
  qed
  with True show ?thesis by (simp add: lines_of_def)
next
  case False
  let ?ls = "clean_loop (py_split [LF] text) []"
  from False have ne: "?ls \<noteq> []" unfolding clean_text_join by auto
  have free: "LF \<notin> set l" if "l \<in> set ?ls" for l using that cleaned_line by blast
  have 1: "\<forall>x\<in>set (butlast ?ls). \<forall>i<length x. \<not> prefix [LF] (drop i (x @ [LF]))"
  proof (intro ballI allI impI)
    fix x i assume x: "x \<in> set (butlast ?ls)" and i: "i < length x"
    from x have "x \<in> set ?ls" by (rule in_set_butlastD)
    then have "LF \<notin> set x" by (rule free)
    with i have "x ! i \<noteq> LF" by (metis nth_mem)
    moreover from i have "drop i (x @ [LF]) = x ! i # drop (Suc i) x @ [LF]"
      by (simp add: Cons_nth_drop_Suc)
    ultimately show "\<not> prefix [LF] (drop i (x @ [LF]))" by simp
  qed
  from ne have "last ?ls \<in> set ?ls" by simp
  then have 2: "\<not> contains [LF] (last ?ls)" using free by (simp add: contains_single)
  have "py_split [LF] (py_join [LF] ?ls) = ?ls"
    using _ ne 1 2 by (rule py_split_py_join) simp
  with False show ?thesis by (simp add: lines_of_def clean_text_join)
qed

lemma set_str_nat: "set (str_nat n) \<subseteq> {48..57}"
proof (induction n rule: str_nat.induct)
  case (1 n)
  show ?case
  proof (cases "n < 10")
    case True
    then show ?thesis by (subst str_nat.simps) simp
  next
    case False
    have "n mod 10 < 10" by simp
    then have "48 + n mod 10 \<in> {48..57}" by (simp del: mod_less_divisor)
    with False 1 show ?thesis by (subst str_nat.simps) simp
  qed
qed

lemma str_nat_not_Nil: "str_nat n \<noteq> []"
  by (subst str_nat.simps) simp

lemma LF_notin_page_marker: "LF \<notin> set (page_marker n)"
proof -
  have "LF \<notin> set (str_nat n)" using set_str_nat [of n] by auto
  then show ?thesis by (simp add: page_marker_def str_def)
qed

lemma hd_page_marker: "hd (page_marker n) = 45"
  by (simp add: page_marker_def str_def)

lemma not_contains_LF_free: "LF \<notin> set x \<Longrightarrow> \<not> contains [LF, LF] x"
  by (induction x) auto

lemma block_text_props:
  assumes "py_strip (clean_text raw) \<noteq> []"
  shows "\<not> contains [LF, LF] (block_text (n, clean_text raw))"
    and "block_text (n, clean_text raw) \<noteq> []"
    and "hd (block_text (n, clean_text raw)) \<noteq> LF"
    and "last (block_text (n, clean_text raw)) \<noteq> LF"
proof -
  let ?t = "clean_text raw"
  have "py_strip [] = []" by (simp add: py_strip_def)
  with assms have ne: "?t \<noteq> []" by auto
  then have ends: "\<not> is_space (hd ?t)" "\<not> is_space (last ?t)"
    using clean_text_ends by blast+
  then have "hd ?t \<noteq> LF" using is_space_LF by metis
  with ne clean_text_no_double [of raw] LF_notin_page_marker [of n]
  show "\<not> contains [LF, LF] (block_text (n, ?t))"
    unfolding block_text_def fst_conv snd_conv by (intro no_double_line_break)
  show "block_text (n, ?t) \<noteq> []" by (simp add: block_text_def)
  have "page_marker n \<noteq> []" by (simp add: page_marker_def str_def)
  then have "hd (block_text (n, ?t)) = hd (page_marker n)" by (simp add: block_text_def)
  then show "hd (block_text (n, ?t)) \<noteq> LF" by (simp add: hd_page_marker)
  from ne have "last (block_text (n, ?t)) = last ?t" by (simp add: block_text_def)
  with ends is_space_LF show "last (block_text (n, ?t)) \<noteq> LF" by metis
qed

lemma no_occurrence_before_end:
  "\<not> contains [LF, LF] b \<Longrightarrow> b \<noteq> [] \<Longrightarrow> last b \<noteq> LF
   \<Longrightarrow> \<forall>i<length b. \<not> prefix [LF, LF] (drop i (b @ [LF, LF]))"
proof (induction b)
  case Nil
  then show ?case by simp
next
  case (Cons a b)
  show ?case
  proof (intro allI impI)
    fix i assume i: "i < length (a # b)"
    show "\<not> prefix [LF, LF] (drop i ((a # b) @ [LF, LF]))"
    proof (cases i)
      case 0
      show ?thesis
      proof (cases b)
        case Nil
        with Cons.prems 0 show ?thesis by simp
      next
        case (Cons c b')
        with Cons.prems 0 show ?thesis by auto
      qed
    next
      case (Suc j)
      with i have j: "j < length b" by simp
      then have "b \<noteq> []" by auto
      with Cons have "\<forall>i<length b. \<not> prefix [LF, LF] (drop i (b @ [LF, LF]))" by simp
      with j Suc show ?thesis by simp
    qed
  qed
qed

lemma occurrences_block:
  "\<not> contains [LF, LF] b \<Longrightarrow> b \<noteq> [] \<Longrightarrow> last b \<noteq> LF \<Longrightarrow> rest \<noteq> [] \<Longrightarrow> hd rest \<noteq> LF
   \<Longrightarrow> occurrences [LF, LF] (b @ [LF, LF] @ rest) = 1 + occurrences [LF, LF] rest"
proof (induction b)
  case Nil
  then show ?case by simp
next
  case (Cons a b)
  show ?case
  proof (cases b)
    case Nil
    with Cons.prems show ?thesis by (cases rest) auto
  next
    case (Cons c b')
    with Cons.prems Cons.IH show ?thesis by auto
  qed
qed

lemma occurrences_py_join:
  assumes "\<forall>b\<in>set bs. \<not> contains [LF, LF] b \<and> b \<noteq> [] \<and> hd b \<noteq> LF \<and> last b \<noteq> LF"
  shows "occurrences [LF, LF] (py_join [LF, LF] bs) = length bs - 1"
  using assms
proof (induction "[LF, LF]" bs rule: py_join.induct)
  case 1
  then show ?case by simp
next
  case (2 x)
  then show ?case by (simp add: occurrences_0_iff)
next
  case (3 x y ys)
  then have IH: "occurrences [LF, LF] (py_join [LF, LF] (y # ys)) = length (y # ys) - 1" by simp
  from 3 have "py_join [LF, LF] (y # ys) \<noteq> []" by (intro py_join_not_Nil) auto
  moreover from 3 have "hd (py_join [LF, LF] (y # ys)) \<noteq> LF" by (simp add: hd_py_join)
  moreover from 3 have "\<not> contains [LF, LF] x" "x \<noteq> []" "last x \<noteq> LF" by auto
  ultimately have "occurrences [LF, LF] (x @ [LF, LF] @ py_join [LF, LF] (y # ys))
      = 1 + occurrences [LF, LF] (py_join [LF, LF] (y # ys))"
    by (intro occurrences_block)
  with IH show ?case by simp
qed

lemma py_split_document:
  assumes "\<forall>b\<in>set bs. \<not> contains [LF, LF] b \<and> b \<noteq> [] \<and> hd b \<noteq> LF \<and> last b \<noteq> LF"
    and "bs \<noteq> []"
  shows "py_split [LF, LF] (py_join [LF, LF] bs) = bs"
proof -
  have "\<forall>x\<in>set (butlast bs). \<forall>i<length x. \<not> prefix [LF, LF] (drop i (x @ [LF, LF]))"
    using assms(1) no_occurrence_before_end by (meson in_set_butlastD)
  moreover from assms have "\<not> contains [LF, LF] (last bs)" by simp
  ultimately show ?thesis using assms(2) by (intro py_split_py_join) auto
qed

lemma process_pdf_blocks:
  assumes "convert_from_path cap pdf = Inr images" and "images \<noteq> []"
    and "\<forall>img\<in>set images. image_to_string cap img = Inr (raw img)"
  shows "process_pdf cap pdf = Inr (py_join [LF, LF] (map block_text (document_blocks raw images)))"
  using assms(1,2) process_pages_blocks [OF assms(3), of 0 "[]"]
  by (simp add: process_pdf_def document_blocks_def)

lemma document_blocks_props:
  assumes "b \<in> set (map block_text (document_blocks raw images))"
  shows "\<not> contains [LF, LF] b \<and> b \<noteq> [] \<and> hd b \<noteq> LF \<and> last b \<noteq> LF"
proof -
  from assms obtain n t where nt: "(n, t) \<in> set (document_blocks raw images)" and b: "b = block_text (n, t)"
    by auto
  from nt obtain k where "k < length images" and t: "t = clean_text (raw (images ! k))"
    and "py_strip t \<noteq> []"
    by (auto simp: document_blocks_def page_blocks_set)
  then show ?thesis unfolding b t by (simp add: block_text_props)
qed

lemmas eval_ocr = process_pdf_def sample_cap_def sample_pdf_def sample_raw_def str_def
  extract_text_from_image_def run_tesseract_ocr_def clean_text_def py_strip_def is_space_def
  collapse_newlines.simps page_marker_def str_nat.simps document_blocks_def page_blocks_def
  block_text_def lines_of_def

lemma set_py_split_piece: "p \<in> set (py_split sep s) \<Longrightarrow> set p \<subseteq> set s"
proof (induction sep s arbitrary: p rule: py_split.induct)
  case (1 sep)
  then show ?case by simp
next
  case (2 sep c cs)
  show ?case
  proof (cases "sep \<noteq> [] \<and> prefix sep (c # cs)")
    case True
    then have "py_split sep (c # cs) = [] # py_split sep (drop (length sep) (c # cs))"
      by simp
    with "2.prems" have "p = [] \<or> p \<in> set (py_split sep (drop (length sep) (c # cs)))"
      by (metis set_ConsD)
    then show ?thesis
    proof
      assume "p = []"
      then show ?thesis by simp
    next
      assume "p \<in> set (py_split sep (drop (length sep) (c # cs)))"
      with True have "set p \<subseteq> set (drop (length sep) (c # cs))" by (rule "2.IH"(1))
      also have "\<dots> \<subseteq> set (c # cs)" by (rule set_drop_subset)
      finally show ?thesis .
    qed
  next
    case False
    obtain q qs where q: "py_split sep cs = q # qs"
      using py_split_not_Nil [of sep cs] by (cases "py_split sep cs") auto
    with False have "py_split sep (c # cs) = (c # q) # qs"
      by simp
    with "2.prems" have "p = c # q \<or> p \<in> set qs" by (metis set_ConsD)
    then show ?thesis
    proof
      assume p: "p = c # q"
      have "q \<in> set (py_split sep cs)" by (simp add: q)
      with False have "set q \<subseteq> set cs" by (rule "2.IH"(2))
      with p show ?thesis by auto
    next
      assume "p \<in> set qs"
      then have "p \<in> set (py_split sep cs)" by (simp add: q)
      with False have "set p \<subseteq> set cs" by (rule "2.IH"(2))
      then show ?thesis by auto
    qed
  qed
qed

lemma py_split_cover: "c \<in> set s \<Longrightarrow> c \<noteq> d \<Longrightarrow> \<exists>p\<in>set (py_split [d] s). c \<in> set p"
proof (induction s)
  case Nil
  then show ?case by simp
next
  case (Cons a s)
  obtain q qs where q: "py_split [d] s = q # qs"
    using py_split_not_Nil [of "[d]" s] by (cases "py_split [d] s") auto
  show ?case
  proof (cases "a = d")
    case True
    with Cons show ?thesis by auto
  next
    case False
    with Cons q show ?thesis by auto
  qed
qed

lemma clean_text_empty_iff: "clean_text raw = [] \<longleftrightarrow> (\<forall>c\<in>set raw. is_space c)"
proof
  assume empty: "clean_text raw = []"
  show "\<forall>c\<in>set raw. is_space c"
  proof (rule ccontr)
    assume "\<not> (\<forall>c\<in>set raw. is_space c)"
    then obtain c where c: "c \<in> set raw" "\<not> is_space c" by blast
    with is_space_LF have "c \<noteq> LF" by metis
    with c obtain p where p: "p \<in> set (py_split [LF] raw)" "c \<in> set p"
      using py_split_cover by blast
    with c have "py_strip p \<noteq> []" by (auto simp: py_strip_eq_Nil_iff)
    with p have "py_strip p \<in> set (clean_loop (py_split [LF] raw) [])"
      by (simp add: clean_loop_filter)
    then have "lines_of (clean_text raw) \<noteq> []" by (auto simp: lines_of_clean_text)
    with empty show False by (simp add: lines_of_def)
  qed
next
  assume all: "\<forall>c\<in>set raw. is_space c"
  have "py_strip p = []" if "p \<in> set (py_split [LF] raw)" for p
    using set_py_split_piece [OF that] all by (auto simp: py_strip_eq_Nil_iff)
  then have "filter (\<lambda>l. l \<noteq> []) (map py_strip (py_split [LF] raw)) = []"
    by (auto simp: filter_empty_conv)
  then show "clean_text raw = []" by (simp add: clean_text_join clean_loop_filter)
qed

lemma str_nat_decode: "foldl (\<lambda>a d. 10 * a + (d - 48)) 0 (str_nat n) = n"
proof (induction n rule: str_nat.induct)
  case (1 n)
  show ?case
  proof (cases "n < 10")
    case True
    then show ?thesis by (subst str_nat.simps) simp
  next
    case False
    with 1 have "foldl (\<lambda>a d. 10 * a + (d - 48)) 0 (str_nat (n div 10)) = n div 10" by simp
    with False show ?thesis by (subst str_nat.simps) simp
  qed
qed

lemma inj_page_marker: "inj page_marker"
proof (rule injI)
  fix m n assume "page_marker m = page_marker n"
  then have "str_nat m = str_nat n" by (simp add: page_marker_def)
  then have "foldl (\<lambda>a d. 10 * a + (d - 48)) 0 (str_nat m)
      = foldl (\<lambda>a d. 10 * a + (d - 48)) 0 (str_nat n)" by simp
  then show "m = n" by (simp only: str_nat_decode)
qed

lemma clean_text_spec: "clean_text raw = spec_normalize raw"
proof -
  have "\<not> contains [LF, LF, LF] (clean_text raw)"
    using clean_text_no_double contains_triple_double by blast
  then have "spec_collapse_runs (clean_text raw) = clean_text raw"
    by (rule spec_collapse_fixed)
  then show ?thesis
    by (simp add: spec_normalize_def clean_text_join clean_loop_filter)
qed

lemma re_split_Nil: "re_split_terminators [] = [[]]"
  by (subst re_split_terminators.simps) simp

lemma re_split_not_Nil: "re_split_terminators s \<noteq> []"
  by (subst re_split_terminators.simps) (simp add: Let_def)

lemma re_split_Cons:
  "re_split_terminators (c # cs) =
     (if is_terminator c then [] # re_split_terminators (dropWhile is_terminator cs)
      else (c # hd (re_split_terminators cs)) # tl (re_split_terminators cs))"
proof (cases "is_terminator c")
  case True
  then show ?thesis by (subst re_split_terminators.simps) simp
next
  case False
  have "re_split_terminators cs =
      (let piece = takeWhile (\<lambda>c. \<not> is_terminator c) cs;
           rest = dropWhile (\<lambda>c. \<not> is_terminator c) cs
       in if rest = [] then [piece]
          else piece # re_split_terminators (dropWhile is_terminator rest))"
    by (subst re_split_terminators.simps) simp
  with False show ?thesis
    by (subst re_split_terminators.simps) (simp add: Let_def)
qed

lemma spec_split_runs_re_split:
  "spec_split_runs cur s = (cur @ hd (re_split_terminators s)) # tl (re_split_terminators s)"
proof (induction cur s rule: spec_split_runs.induct)
  case (1 cur)
  then show ?case by (simp add: re_split_Nil)
next
  case (2 cur c cs)
  show ?case
  proof (cases "is_terminator c")
    case True
    with 2 re_split_not_Nil [of "dropWhile is_terminator cs"] show ?thesis
      by (simp add: re_split_Cons)
  next
    case False
    with 2 show ?thesis by (simp add: re_split_Cons)
  qed
qed

lemma re_split_spec: "re_split_terminators s = spec_split_runs [] s"
  using re_split_not_Nil [of s] by (simp add: spec_split_runs_re_split)

lemma filter_map_strip:
  "map py_strip (filter (\<lambda>p. py_strip p \<noteq> []) xs) = filter (\<lambda>b. b \<noteq> []) (map py_strip xs)"
  by (induction xs) auto

lemma sentences_loop_concat:
  "sentences_loop ps acc
     = acc @ concat (map (\<lambda>p. filter (\<lambda>x. x \<noteq> []) (map py_strip (spec_split_runs [] p))) ps)"
  by (induction ps arbitrary: acc) (simp_all add: Let_def filter_map_strip re_split_spec)

lemma parse_no_fault:
  "parse_text_to_structured_data text =
     \<lparr>paragraphs = split_paragraphs (normalize_newlines text),
      sentences = sentences_loop (split_paragraphs (normalize_newlines text)) [],
      words = py_split_ws (normalize_newlines text),
      page_count = count_pages (normalize_newlines text)\<rparr>"
  by (simp add: parse_text_to_structured_data_def parse_text_under_def parse_try_block_def Let_def)

lemmas eval_parse = str_def py_strip_def is_space_def is_terminator_def split_paragraphs_def
  normalize_newlines_def py_split_ws_def count_pages_def re_split_spec
  parse_no_fault spec_paragraphs_def spec_sentences_def spec_line_endings_def

lemma split_ws_scan_spaces:
  "\<forall>c\<in>set w. is_space c \<Longrightarrow> w \<noteq> []
   \<Longrightarrow> split_ws_scan cur (w @ rest) = (if cur = [] then [] else [cur]) @ split_ws_scan [] rest"
proof (induction w arbitrary: cur)
  case Nil
  then show ?case by simp
next
  case (Cons a w)
  show ?case
  proof (cases "w = []")
    case True
    with Cons.prems show ?thesis by simp
  next
    case False
    with Cons have "split_ws_scan [] (w @ rest) = split_ws_scan [] rest" by simp
    with Cons.prems show ?thesis by simp
  qed
qed

lemma split_ws_scan_replace:
  "\<forall>c\<in>set old. is_space c \<Longrightarrow> old \<noteq> [] \<Longrightarrow> \<forall>c\<in>set new. is_space c \<Longrightarrow> new \<noteq> []
   \<Longrightarrow> split_ws_scan cur (py_replace old new s) = split_ws_scan cur s"
proof (induction old new s arbitrary: cur rule: py_replace.induct)
  case (1 old new)
  then show ?case by simp
next
  case (2 old new c cs)
  note sp = "2.prems"
  show ?case
  proof (cases "prefix old (c # cs)")
    case True
    then obtain rest where rest: "c # cs = old @ rest" by (auto simp: prefix_def)
    then have d: "drop (length old) (c # cs) = rest" by simp
    from "2.IH"(2) [OF sp(2) True sp] have IH: "split_ws_scan [] (py_replace old new rest) = split_ws_scan [] rest"
      unfolding d .
    from True sp(2) have "py_replace old new (c # cs) = new @ py_replace old new rest"
      unfolding d [symmetric] by simp
    then have "split_ws_scan cur (py_replace old new (c # cs))
        = (if cur = [] then [] else [cur]) @ split_ws_scan [] (py_replace old new rest)"
      using split_ws_scan_spaces [OF sp(3,4)] by simp
    also have "\<dots> = split_ws_scan cur (old @ rest)"
      using split_ws_scan_spaces [OF sp(1,2)] IH by simp
    finally show ?thesis by (simp only: rest)
  next
    case False
    from "2.IH"(3) [OF sp(2) False sp]
    have IH: "\<And>cur. split_ws_scan cur (py_replace old new cs) = split_ws_scan cur cs" .
    from False sp(2) show ?thesis by (simp add: IH)
  qed
qed

lemma py_split_ws_normalize: "py_split_ws (normalize_newlines text) = py_split_ws text"
proof -
  have "split_ws_scan [] (py_replace [CR, LF] [LF] text) = split_ws_scan [] text"
    by (rule split_ws_scan_replace) (simp_all add: is_space_def)
  moreover have "split_ws_scan [] (py_replace [CR] [LF] text) = split_ws_scan [] text"
    by (rule split_ws_scan_replace) (simp_all add: is_space_def)
  ultimately show ?thesis by (simp add: py_split_ws_def normalize_newlines_def)
qed

lemma normalize_newlines_no_CR: "CR \<notin> set text \<Longrightarrow> normalize_newlines text = text"
  by (auto simp: normalize_newlines_def contains_iff)

lemma parse_try_block_fault:
  assumes "parse_try_block fault text = Inl t"
  shows "t = (if fault Normalize then text else normalize_newlines text)"
  using assms by (auto simp: parse_try_block_def Let_def split: if_splits)

lemma upt_0_Suc_shift: "[0..<Suc n] = 0 # map Suc [0..<n]"
  by (simp add: upt_conv_Cons map_Suc_upt del: upt_Suc)

lemma csv_lines_loop_rows:
  "csv_lines_loop idx lines acc
     = acc @ map (\<lambda>i. [IntCell (idx + int i), StrCell (lines ! i)]) [0..<length lines]"
proof (induction lines arbitrary: idx acc)
  case Nil
  then show ?case by simp
next
  case (Cons line lines)
  have "map (\<lambda>i. [IntCell (idx + int i), StrCell ((line # lines) ! i)]) [0..<length (line # lines)]
      = [IntCell idx, StrCell line]
        # map (\<lambda>i. [IntCell (idx + 1 + int i), StrCell (lines ! i)]) [0..<length lines]"
    by (simp add: upt_0_Suc_shift comp_def ac_simps del: upt_Suc)
  with Cons.IH [of "idx + 1" "acc @ [[IntCell idx, StrCell line]]"] show ?case
    by simp
qed

lemma splitlines_scan_Nil_iff: "splitlines_scan cur s = [] \<longleftrightarrow> cur = [] \<and> s = []"
  by (induction cur s rule: splitlines_scan.induct) auto

lemma py_splitlines_Nil_iff: "py_splitlines text = [] \<longleftrightarrow> text = []"
  by (simp add: py_splitlines_def splitlines_scan_Nil_iff)

lemma line_csv_data_rows:
  "line_csv_data text
     = [StrCell (str ''Line Number''), StrCell (str ''Line Text'')]
       # (if py_splitlines text = [] then [[IntCell 1, StrCell text]]
          else map (\<lambda>i. [IntCell (int i + 1), StrCell (py_splitlines text ! i)])
                 [0..<length (py_splitlines text)])"
  by (simp add: line_csv_data_def Let_def csv_lines_loop_rows ac_simps)

lemma utf8_encodable_Nil [simp]: "utf8_encodable []"
  by (simp add: utf8_encodable_def)

lemma utf8_encodable_Cons [simp]:
  "utf8_encodable (c # s) \<longleftrightarrow> \<not> is_surrogate c \<and> utf8_encodable s"
  by (simp add: utf8_encodable_def)

lemma utf8_encodable_append [simp]:
  "utf8_encodable (a @ b) \<longleftrightarrow> utf8_encodable a \<and> utf8_encodable b"
  by (auto simp: utf8_encodable_def)

lemma utf8_encodable_mono: "set a \<subseteq> set b \<Longrightarrow> utf8_encodable b \<Longrightarrow> utf8_encodable a"
  by (auto simp: utf8_encodable_def)

lemma utf8_encodable_ascii: "\<forall>c\<in>set s. c < 128 \<Longrightarrow> utf8_encodable s"
  by (auto simp: utf8_encodable_def is_surrogate_def)

lemma utf8_encodable_str [simp]: "utf8_encodable (str cs)"
proof -
  have "\<not> is_surrogate (of_char c)" for c :: char
  proof -
    have "of_char c < (256 :: nat)" by (cases c) (simp add: of_char_def)
    then show ?thesis unfolding is_surrogate_def by linarith
  qed
  then show ?thesis by (simp add: utf8_encodable_def str_def)
qed

lemma utf8_encodable_str_nat [simp]: "utf8_encodable (str_nat n)"
  using set_str_nat [of n] by (auto simp: utf8_encodable_def is_surrogate_def)

lemma utf8_encodable_str_int [simp]: "utf8_encodable (str_int i)"
  by (simp add: str_int_def is_surrogate_def)

lemma in_set_py_replace: "x \<in> set (py_replace old new s) \<Longrightarrow> x \<in> set s \<or> x \<in> set new"
proof (induction old new s rule: py_replace.induct)
  case (1 old new)
  then show ?case by (simp split: if_splits)
next
  case (2 old new c cs)
  show ?case
  proof (cases "old = []")
    case True
    with 2 show ?thesis by auto
  next
    case False
    show ?thesis
    proof (cases "prefix old (c # cs)")
      case True
      with False 2 have "x \<in> set new \<or> x \<in> set (py_replace old new (drop (length old) (c # cs)))"
        by simp
      with 2 False True have "x \<in> set new \<or> x \<in> set (drop (length old) (c # cs))" by blast
      then show ?thesis by (blast dest: in_set_dropD)
    next
      case False
      with \<open>old \<noteq> []\<close> 2 show ?thesis by auto
    qed
  qed
qed

lemma set_py_replace: "set (py_replace old new s) \<subseteq> set s \<union> set new"
  using in_set_py_replace by blast

lemma utf8_encodable_py_replace:
  "utf8_encodable s \<Longrightarrow> utf8_encodable new \<Longrightarrow> utf8_encodable (py_replace old new s)"
  using set_py_replace [of old new s] by (auto simp: utf8_encodable_def)

lemma py_replace_keeps: "c \<in> set s \<Longrightarrow> c \<noteq> d \<Longrightarrow> c \<in> set (py_replace [d] new s)"
  by (induction s) auto

lemma utf8_encodable_text_mode_write:
  assumes "utf8_encodable linesep"
  shows "utf8_encodable (text_mode_write linesep s) \<longleftrightarrow> utf8_encodable s"
proof
  assume "utf8_encodable s"
  with assms show "utf8_encodable (text_mode_write linesep s)"
    by (simp add: text_mode_write_def utf8_encodable_py_replace)
next
  assume e: "utf8_encodable (text_mode_write linesep s)"
  show "utf8_encodable s"
    unfolding utf8_encodable_def
  proof
    fix c assume c: "c \<in> set s"
    show "\<not> is_surrogate c"
    proof (cases "c = LF")
      case True
      then show ?thesis by (simp add: is_surrogate_def)
    next
      case False
      with c have "c \<in> set (text_mode_write linesep s)"
        by (simp add: text_mode_write_def py_replace_keeps)
      with e show ?thesis by (simp add: utf8_encodable_def)
    qed
  qed
qed

lemma set_universal_newlines: "set (universal_newlines s) \<subseteq> insert LF (set s)"
  by (induction s rule: universal_newlines.induct) auto

lemma utf8_encodable_universal_newlines:
  "utf8_encodable s \<Longrightarrow> utf8_encodable (universal_newlines s)"
  using set_universal_newlines [of s] by (auto simp: utf8_encodable_def is_surrogate_def)

lemma py_replace_quote:
  "py_replace [34] [34, 34] s = concat (map (\<lambda>c. if c = 34 then [34, 34] else [c]) s)"
  by (induction s) auto

lemma utf8_encodable_spec_quoted [simp]: "utf8_encodable (spec_quoted s) \<longleftrightarrow> utf8_encodable s"
  by (induction s) (auto simp: spec_quoted_def is_surrogate_def)

lemma utf8_encodable_spec_csv_row [simp]:
  "utf8_encodable (spec_csv_row a b) \<longleftrightarrow> utf8_encodable a \<and> utf8_encodable b"
  by (simp add: spec_csv_row_def is_surrogate_def)

lemma csv_record_numbered:
  "csv_record [IntCell (int n), StrCell line] = spec_csv_row (str_nat n) line"
  by (simp add: csv_record_def csv_field_def spec_csv_row_def spec_quoted_def py_replace_quote
      str_int_def)

lemma csv_record_numbered_Suc:
  "csv_record [IntCell (int i + 1), StrCell line] = spec_csv_row (str_nat (i + 1)) line"
  using csv_record_numbered [of "i + 1" line] by (simp add: ac_simps)

lemma str_nat_1: "str_nat (Suc 0) = str ''1''"
  by (simp add: str_nat.simps str_def)

lemma csv_record_strings: "csv_record [StrCell a, StrCell b] = spec_csv_row a b"
  by (simp add: csv_record_def csv_field_def spec_csv_row_def spec_quoted_def py_replace_quote)

lemma csv_record_not_Nil: "csv_record row \<noteq> []"
  by (simp add: csv_record_def)

lemma writerows_encodable:
  "\<forall>row\<in>set rows. utf8_encodable (csv_record row) \<Longrightarrow>
   writerows rows written
     = (None, written @ (if written = [] \<and> rows \<noteq> [] then [BOM] else []) @ concat (map csv_record rows))"
proof (induction rows arbitrary: written)
  case Nil
  then show ?case by simp
next
  case (Cons row rows)
  then show ?case by (cases "written = []") (simp_all add: csv_record_not_Nil)
qed

lemma writerows_unencodable:
  "\<exists>row\<in>set rows. \<not> utf8_encodable (csv_record row) \<Longrightarrow>
   fst (writerows rows written) = Some UnicodeEncodeError"
proof (induction rows arbitrary: written)
  case Nil
  then show ?case by simp
next
  case (Cons row rows)
  then show ?case by (cases "utf8_encodable (csv_record row)") (simp_all add: Let_def)
qed

lemma set_splitlines_scan: "l \<in> set (splitlines_scan cur s) \<Longrightarrow> set l \<subseteq> set cur \<union> set s"
  by (induction cur s arbitrary: l rule: splitlines_scan.induct) (auto split: if_splits)

lemma set_py_splitlines: "l \<in> set (py_splitlines s) \<Longrightarrow> set l \<subseteq> set s"
  using set_splitlines_scan [of l "[]" s] by (simp add: py_splitlines_def)

lemma splitlines_scan_cover:
  "c \<in> set cur \<union> set s \<Longrightarrow> \<not> is_linebreak c \<Longrightarrow> \<exists>l\<in>set (splitlines_scan cur s). c \<in> set l"
proof (induction cur s rule: splitlines_scan.induct)
  case (1 cur)
  then show ?case by auto
next
  case (2 cur d)
  then show ?case by auto
next
  case (3 cur d e cs)
  then show ?case
    by (cases "d = CR \<and> e = LF"; cases "is_linebreak d") (auto simp: is_linebreak_def)
qed

lemma py_splitlines_cover:
  "c \<in> set s \<Longrightarrow> \<not> is_linebreak c \<Longrightarrow> \<exists>l\<in>set (py_splitlines s). c \<in> set l"
  using splitlines_scan_cover [of c "[]" s] by (simp add: py_splitlines_def)

lemma line_csv_data_encodable:
  "(\<forall>row\<in>set (line_csv_data text). utf8_encodable (csv_record row)) \<longleftrightarrow> utf8_encodable text"
proof
  assume e: "utf8_encodable text"
  have "utf8_encodable (py_splitlines text ! i)" if "i < length (py_splitlines text)" for i
    using that e set_py_splitlines [of "py_splitlines text ! i" "text"]
    by (auto intro: utf8_encodable_mono)
  with e show "\<forall>row\<in>set (line_csv_data text). utf8_encodable (csv_record row)"
    using csv_record_numbered [of 1 "text"]
    by (auto simp: line_csv_data_rows csv_record_strings csv_record_numbered_Suc)
next
  assume rows: "\<forall>row\<in>set (line_csv_data text). utf8_encodable (csv_record row)"
  show "utf8_encodable text"
  proof (cases "py_splitlines text = []")
    case True
    then show ?thesis by (simp add: py_splitlines_Nil_iff)
  next
    case False
    show ?thesis
      unfolding utf8_encodable_def
    proof
      fix c assume c: "c \<in> set text"
      show "\<not> is_surrogate c"
      proof
        assume sur: "is_surrogate c"
        then have "\<not> is_linebreak c" by (auto simp: is_surrogate_def is_linebreak_def)
        with c obtain l where l: "l \<in> set (py_splitlines text)" "c \<in> set l"
          using py_splitlines_cover by blast
        then obtain i where i: "i < length (py_splitlines text)" "py_splitlines text ! i = l"
          by (auto simp: in_set_conv_nth)
        with False have "[IntCell (int i + 1), StrCell l] \<in> set (line_csv_data text)"
          by (auto simp: line_csv_data_rows)
        with rows have "utf8_encodable (csv_record [IntCell (int i + 1), StrCell l])"
          by blast
        then have "utf8_encodable l"
          by (simp only: csv_record_numbered_Suc utf8_encodable_spec_csv_row)
        with l sur show False by (auto simp: utf8_encodable_def)
      qed
    qed
  qed
qed

lemma csv_text_of_rows:
  "BOM # concat (map csv_record (line_csv_data text)) = spec_csv_file text"
proof -
  have "csv_record [IntCell 1, StrCell text] = spec_csv_row (str ''1'') text"
    using csv_record_numbered [of 1 "text"] by (simp add: str_nat_1)
  then show ?thesis
    by (simp add: line_csv_data_rows spec_csv_file_def csv_record_strings comp_def
        csv_record_numbered_Suc del: One_nat_def)
qed

lemma line_csv_data_not_Nil: "line_csv_data text \<noteq> []"
  by (simp add: line_csv_data_rows)

lemma convert_to_csv_sync_writes:
  assumes "utf8_encodable text"
    and "mkdir_error os (parent output_path) = None" and "open_error os output_path = None"
  shows "convert_to_csv_sync os text output_path files
       = (None, files(output_path \<mapsto> spec_csv_file text))"
proof -
  have "writerows (line_csv_data text) [] = (None, spec_csv_file text)"
    using assms(1) line_csv_data_not_Nil [of "text"]
    by (simp add: writerows_encodable line_csv_data_encodable csv_text_of_rows)
  moreover have "spec_csv_file text \<noteq> []" by (simp add: spec_csv_file_def)
  ultimately show ?thesis
    using assms(2,3)
    by (simp add: convert_to_csv_sync_def csv_verify_def read_text_def Let_def)
qed

lemma convert_to_csv_sync_unencodable:
  assumes "\<not> utf8_encodable text"
    and "mkdir_error os (parent output_path) = None" and "open_error os output_path = None"
  shows "fst (convert_to_csv_sync os text output_path files) = Some UnicodeEncodeError"
proof -
  from assms(1) have "\<not> (\<forall>row\<in>set (line_csv_data text). utf8_encodable (csv_record row))"
    by (simp only: line_csv_data_encodable not_False_eq_True)
  then have "\<exists>row\<in>set (line_csv_data text). \<not> utf8_encodable (csv_record row)" by blast
  then have "fst (writerows (line_csv_data text) []) = Some UnicodeEncodeError"
    by (rule writerows_unencodable)
  with assms(2,3) show ?thesis
    by (cases "writerows (line_csv_data text) []")
       (simp add: convert_to_csv_sync_def Let_def)
qed

lemma convert_to_csv_sync_refused:
  assumes "mkdir_error os (parent output_path) = None" and "open_error os output_path = Some e"
  shows "convert_to_csv_sync os text output_path files = (Some e, files)"
  using assms by (simp add: convert_to_csv_sync_def)

lemmas eval_csv = line_csv_data_def py_splitlines_def is_linebreak_def str_def Let_def

lemma str_nat_digit: "n < 10 \<Longrightarrow> str_nat n = [48 + n]"
  by (simp add: str_nat.simps)

lemmas eval_csv_file = spec_csv_file_def spec_csv_row_def spec_quoted_def py_splitlines_def
  is_linebreak_def is_surrogate_def str_def str_nat_digit

lemma universal_newlines_Cons: "c \<noteq> CR \<Longrightarrow> universal_newlines (c # s) = c # universal_newlines s"
  by (cases s) auto

lemma universal_newlines_id: "CR \<notin> set s \<Longrightarrow> universal_newlines s = s"
  by (induction s) (auto simp: universal_newlines_Cons)

lemma py_replace_same: "py_replace [c] [c] s = s"
  by (induction s) auto

lemma read_back_written:
  assumes "CR \<notin> set s" and "linesep = [LF] \<or> linesep = [CR, LF]"
  shows "universal_newlines (text_mode_write linesep s) = s"
proof -
  have "universal_newlines (py_replace [LF] [CR, LF] s) = s"
    using assms(1) by (induction s) (auto simp: universal_newlines_Cons)
  with assms show ?thesis
    by (auto simp: text_mode_write_def py_replace_same universal_newlines_id)
qed

lemma text_mode_write_LF: "text_mode_write [LF] s = s"
  by (simp add: text_mode_write_def py_replace_same)

lemma notin_py_join: "a \<notin> set sep \<Longrightarrow> \<forall>x\<in>set xs. a \<notin> set x \<Longrightarrow> a \<notin> set (py_join sep xs)"
  by (induction sep xs rule: py_join.induct) auto

lemma CR_notin_str_int: "CR \<notin> set (str_int i)"
  using set_str_nat [of "nat i"] set_str_nat [of "nat (- i)"] by (auto simp: str_int_def)

lemma CR_notin_json_escape: "CR \<notin> set (json_escape c)"
  by (auto simp: json_escape_def hex_digit_def)

lemma CR_notin_encode_basestring: "CR \<notin> set (encode_basestring s)"
  using CR_notin_json_escape by (auto simp: encode_basestring_def)

lemma CR_notin_newline_indent: "CR \<notin> set (newline_indent n)"
  by (auto simp: newline_indent_def)

lemma CR_notin_json_encode: "CR \<notin> set (json_encode level v)"
proof (induction v arbitrary: level)
  case (JInt i)
  then show ?case by (simp add: CR_notin_str_int)
next
  case (JStr s)
  then show ?case by (simp add: CR_notin_encode_basestring)
next
  case (JList xs)
  have "CR \<notin> set ([44] @ newline_indent (level + 1))"
    by (simp add: CR_notin_newline_indent)
  moreover have "\<forall>x\<in>set (map (json_encode (level + 1)) xs). CR \<notin> set x"
    using JList by auto
  ultimately have "CR \<notin> set (py_join ([44] @ newline_indent (level + 1)) (map (json_encode (level + 1)) xs))"
    by (rule notin_py_join)
  then show ?case by (simp add: CR_notin_newline_indent str_def)
next
  case (JDict kvs)
  have item: "CR \<notin> set (encode_basestring (fst kv) @ [58, 32] @ json_encode (level + 1) (snd kv))"
    if "kv \<in> set kvs" for kv
  proof -
    have "snd kv \<in> Basic_BNFs.snds kv" by (cases kv) simp
    with that JDict have "CR \<notin> set (json_encode (level + 1) (snd kv))" by blast
    then show ?thesis by (simp add: CR_notin_encode_basestring)
  qed
  have "CR \<notin> set ([44] @ newline_indent (level + 1))"
    by (simp add: CR_notin_newline_indent)
  moreover have "\<forall>x\<in>set (map (\<lambda>kv. encode_basestring (fst kv) @ [58, 32] @ json_encode (level + 1) (snd kv)) kvs).
      CR \<notin> set x"
    using item by auto
  ultimately have "CR \<notin> set (py_join ([44] @ newline_indent (level + 1))
      (map (\<lambda>kv. encode_basestring (fst kv) @ [58, 32] @ json_encode (level + 1) (snd kv)) kvs))"
    by (rule notin_py_join)
  then show ?case by (simp add: CR_notin_newline_indent str_def)
qed

lemma utf8_encodable_py_join:
  "utf8_encodable sep \<Longrightarrow> \<forall>x\<in>set xs. utf8_encodable x \<Longrightarrow> utf8_encodable (py_join sep xs)"
  by (induction sep xs rule: py_join.induct) auto

lemma utf8_encodable_json_escape: "\<not> is_surrogate c \<Longrightarrow> utf8_encodable (json_escape c)"
  by (auto simp: json_escape_def hex_digit_def is_surrogate_def)

lemma utf8_encodable_encode_basestring:
  "utf8_encodable (encode_basestring s) \<longleftrightarrow> utf8_encodable s"
proof (induction s)
  case Nil
  then show ?case by (simp add: encode_basestring_def is_surrogate_def)
next
  case (Cons c s)
  have "utf8_encodable (json_escape c) \<longleftrightarrow> \<not> is_surrogate c"
    by (auto simp: json_escape_def hex_digit_def is_surrogate_def)
  with Cons show ?case by (simp add: encode_basestring_def is_surrogate_def)
qed

lemma utf8_encodable_newline_indent [simp]: "utf8_encodable (newline_indent n)"
  by (simp add: newline_indent_def utf8_encodable_def is_surrogate_def)

lemma json_encode_encodable:
  "\<forall>c\<in>json_chars v. \<not> is_surrogate c \<Longrightarrow> utf8_encodable (json_encode level v)"
proof (induction v arbitrary: level)
  case (JInt i)
  then show ?case by simp
next
  case (JStr s)
  then have "utf8_encodable s" by (simp add: utf8_encodable_def)
  then show ?case by (simp add: utf8_encodable_encode_basestring)
next
  case (JList xs)
  have "utf8_encodable ([44] @ newline_indent (level + 1))"
    by (simp add: is_surrogate_def)
  moreover have "\<forall>x\<in>set (map (json_encode (level + 1)) xs). utf8_encodable x"
    using JList by auto
  ultimately have "utf8_encodable
      (py_join ([44] @ newline_indent (level + 1)) (map (json_encode (level + 1)) xs))"
    by (rule utf8_encodable_py_join)
  then show ?case by (simp add: is_surrogate_def)
next
  case (JDict kvs)
  have item: "utf8_encodable (encode_basestring (fst kv) @ [58, 32] @ json_encode (level + 1) (snd kv))"
    if "kv \<in> set kvs" for kv
  proof -
    have "snd kv \<in> Basic_BNFs.snds kv" by (cases kv) simp
    moreover from that JDict.prems have "\<forall>c\<in>json_chars (snd kv). \<not> is_surrogate c" by auto
    ultimately have "utf8_encodable (json_encode (level + 1) (snd kv))"
      using that JDict.IH by blast
    moreover from that JDict.prems have "utf8_encodable (fst kv)"
      by (auto simp: utf8_encodable_def)
    ultimately show ?thesis
      by (simp add: utf8_encodable_encode_basestring is_surrogate_def)
  qed
  have "utf8_encodable ([44] @ newline_indent (level + 1))"
    by (simp add: is_surrogate_def)
  moreover have "\<forall>x\<in>set (map (\<lambda>kv. encode_basestring (fst kv) @ [58, 32] @ json_encode (level + 1) (snd kv)) kvs).
      utf8_encodable x"
    using item by auto
  ultimately have "utf8_encodable (py_join ([44] @ newline_indent (level + 1))
      (map (\<lambda>kv. encode_basestring (fst kv) @ [58, 32] @ json_encode (level + 1) (snd kv)) kvs))"
    by (rule utf8_encodable_py_join)
  then show ?case by (simp add: is_surrogate_def)
qed

lemma set_split_ws_scan: "w \<in> set (split_ws_scan cur s) \<Longrightarrow> set w \<subseteq> set cur \<union> set s"
  by (induction cur s arbitrary: w rule: split_ws_scan.induct) (auto split: if_splits)

lemma set_py_split_ws: "w \<in> set (py_split_ws s) \<Longrightarrow> set w \<subseteq> set s"
  using set_split_ws_scan [of w "[]" s] by (simp add: py_split_ws_def)

lemma set_spec_split_runs: "x \<in> set (spec_split_runs cur s) \<Longrightarrow> set x \<subseteq> set cur \<union> set s"
proof (induction cur s arbitrary: x rule: spec_split_runs.induct)
  case (1 cur)
  then show ?case by simp
next
  case (2 cur c cs)
  show ?case
  proof (cases "is_terminator c")
    case True
    with 2 have "x = cur \<or> x \<in> set (spec_split_runs [] (dropWhile is_terminator cs))" by simp
    then show ?thesis
    proof
      assume "x = cur"
      then show ?thesis by auto
    next
      assume "x \<in> set (spec_split_runs [] (dropWhile is_terminator cs))"
      with True 2 have "set x \<subseteq> set (dropWhile is_terminator cs)" by fastforce
      then show ?thesis using set_dropWhileD by fastforce
    qed
  next
    case False
    with 2 show ?thesis by fastforce
  qed
qed

lemma set_normalize_newlines: "set (normalize_newlines text) \<subseteq> insert LF (set text)"
  using set_py_replace [of "[CR, LF]" "[LF]" "text"] set_py_replace [of "[CR]" "[LF]" "text"]
  by (auto simp: normalize_newlines_def)

lemma set_split_paragraphs: "p \<in> set (split_paragraphs s) \<Longrightarrow> set p \<subseteq> set s"
  using set_py_strip set_py_split_piece by (fastforce simp: split_paragraphs_def)

lemma set_sentences_loop:
  assumes "x \<in> set (sentences_loop ps [])"
  shows "\<exists>p\<in>set ps. set x \<subseteq> set p"
proof -
  from assms obtain p y where p: "p \<in> set ps" and y: "y \<in> set (spec_split_runs [] p)"
    and x: "x = py_strip y"
    by (auto simp: sentences_loop_concat)
  from y have "set y \<subseteq> set p" using set_spec_split_runs [of y "[]" p] by simp
  with x have "set x \<subseteq> set p" using set_py_strip [of y] by auto
  with p show ?thesis by blast
qed

lemma json_data_chars:
  assumes "utf8_encodable text"
  shows "\<forall>c\<in>json_chars (json_data text). \<not> is_surrogate c"
proof -
  let ?t = "normalize_newlines text"
  have t: "utf8_encodable ?t"
    using assms set_normalize_newlines [of "text"] by (auto simp: utf8_encodable_def is_surrogate_def)
  have para: "utf8_encodable p" if "p \<in> set (split_paragraphs ?t)" for p
    using that t set_split_paragraphs by (blast intro: utf8_encodable_mono)
  have sent: "utf8_encodable x" if "x \<in> set (sentences_loop (split_paragraphs ?t) [])" for x
    using set_sentences_loop [OF that] para by (blast intro: utf8_encodable_mono)
  have word: "utf8_encodable w" if "w \<in> set (py_split_ws ?t)" for w
    using that t set_py_split_ws by (blast intro: utf8_encodable_mono)
  have s: "\<forall>c\<in>set (str cs). \<not> is_surrogate c" for cs
    using utf8_encodable_str [of cs] by (simp add: utf8_encodable_def)
  show ?thesis
    using assms para sent word s
    by (auto simp: json_data_def parse_no_fault Let_def utf8_encodable_def)
qed

lemma json_dumps_encodable:
  "utf8_encodable (json_dumps (json_data text)) \<longleftrightarrow> utf8_encodable text"
proof
  assume "utf8_encodable text"
  then show "utf8_encodable (json_dumps (json_data text))"
    by (simp add: json_dumps_def json_encode_encodable json_data_chars)
next
  assume e: "utf8_encodable (json_dumps (json_data text))"
  have "set (encode_basestring text) \<subseteq> set (json_dumps (json_data text))"
    by (auto simp: json_dumps_def json_data_def Let_def)
  then have "utf8_encodable (encode_basestring text)" using e by (rule utf8_encodable_mono)
  then show "utf8_encodable text" by (simp add: utf8_encodable_encode_basestring)
qed

lemma convert_to_json_writes:
  assumes "utf8_encodable text" and "utf8_encodable linesep" and "open_error os output_path = None"
  shows "convert_to_json os linesep text output_path files
       = (None, files(output_path \<mapsto> text_mode_write linesep (json_dumps (json_data text))))"
  using assms
  by (simp add: convert_to_json_def write_file_def utf8_encodable_text_mode_write json_dumps_encodable)

lemma convert_to_json_unencodable:
  assumes "\<not> utf8_encodable text" and "utf8_encodable linesep" and "open_error os output_path = None"
  shows "convert_to_json os linesep text output_path files
       = (Some UnicodeEncodeError, files(output_path \<mapsto> []))"
  using assms
  by (simp add: convert_to_json_def write_file_def utf8_encodable_text_mode_write json_dumps_encodable)

lemma convert_to_json_refused:
  assumes "open_error os output_path = Some e"
  shows "convert_to_json os linesep text output_path files = (Some e, files)"
  using assms by (simp add: convert_to_json_def write_file_def)

lemma json_file_read_back:
  assumes "linesep = [LF] \<or> linesep = [CR, LF]" and "open_error os output_path = None"
  shows "read_text os (files(output_path \<mapsto> text_mode_write linesep (json_dumps (json_data text))))
           output_path
       = Inr (json_dumps (json_data text))"
  using read_back_written [OF CR_notin_json_encode assms(1), of 0 "json_data text"] assms(2)
  by (simp add: read_text_def json_dumps_def)

lemma json_data_fields:
  "json_get2 (json_data text) (str ''content'') (str ''full_text'') = Some (JStr text)"
  "json_get2 (json_data text) (str ''document_info'') (str ''total_words'')
     = Some (JInt (int (length (py_split_ws text))))"
  "json_get2 (json_data text) (str ''content'') (str ''paragraphs'')
     = Some (JList (map JStr (paragraphs (parse_text_to_structured_data text))))"
  "json_get2 (json_data text) (str ''content'') (str ''sentences'')
     = Some (JList (map JStr (sentences (parse_text_to_structured_data text))))"
  "json_get2 (json_data text) (str ''content'') (str ''words'')
     = Some (JList (map JStr (words (parse_text_to_structured_data text))))"
  by (simp_all add: json_data_def json_get2_def Let_def str_def)

lemma py_rfind_bound: "py_rfind d s = Some i \<Longrightarrow> i < length s"
  by (induction s arbitrary: i) (auto split: option.splits if_splits)

lemma suffix_of_is_drop:
  "suffix_of nm \<noteq> [] \<Longrightarrow> \<exists>i. 0 < i \<and> i < length nm \<and> suffix_of nm = drop i nm"
  by (auto simp: suffix_of_def split: option.splits if_splits dest: py_rfind_bound)

lemma with_suffix_txt:
  assumes "name p \<noteq> []"
  shows "\<exists>stem. stem \<noteq> [] \<and> name p = stem @ suffix_of (name p)
      \<and> with_suffix p (str ''.txt'') = Inr (p\<lparr>name := stem @ str ''.txt''\<rparr>)"
proof (cases "suffix_of (name p) = []")
  case True
  with assms show ?thesis by (auto simp: with_suffix_def str_def)
next
  case False
  then obtain i where i: "0 < i" "i < length (name p)" "suffix_of (name p) = drop i (name p)"
    using suffix_of_is_drop by blast
  then have "length (name p) - length (suffix_of (name p)) = i" by simp
  then have w: "with_suffix p (str ''.txt'') = Inr (p\<lparr>name := take i (name p) @ str ''.txt''\<rparr>)"
    using False assms by (simp add: with_suffix_def str_def Let_def)
  from i have "take i (name p) \<noteq> []" "name p = take i (name p) @ suffix_of (name p)" by auto
  with w show ?thesis by blast
qed

lemma with_suffix_txt_differs:
  assumes "name p \<noteq> []" and "suffix_of (name p) \<noteq> str ''.txt''"
    and "with_suffix p (str ''.txt'') = Inr txt_path"
  shows "txt_path \<noteq> p"
proof
  assume same: "txt_path = p"
  from with_suffix_txt [OF assms(1)] obtain stem where
    stem: "name p = stem @ suffix_of (name p)" "with_suffix p (str ''.txt'') = Inr (p\<lparr>name := stem @ str ''.txt''\<rparr>)"
    by blast
  with assms(3) same have "p = p\<lparr>name := stem @ str ''.txt''\<rparr>" by simp
  then have "name p = stem @ str ''.txt''" by (metis path.select_convs(2) path.surjective path.update_convs(2))
  with stem(1) have "stem @ suffix_of (name p) = stem @ str ''.txt''" by simp
  with assms(2) show False by simp
qed

lemma with_suffix_parent: "with_suffix p suffix' = Inr q \<Longrightarrow> parent q = parent p"
  by (auto simp: with_suffix_def Let_def split: if_splits)

lemma convert_to_format_csv:
  assumes "with_suffix output_path (str ''.txt'') = Inr txt_path"
    and "utf8_encodable text" and "utf8_encodable linesep"
    and "mkdir_error os (parent output_path) = None"
    and "open_error os txt_path = None" and "open_error os output_path = None"
  shows "convert_to_format os linesep text output_path (str ''csv'') files
       = (None, (files(txt_path \<mapsto> text_mode_write linesep text))
              (output_path \<mapsto> spec_csv_file (universal_newlines (text_mode_write linesep text))))"
proof -
  let ?T = "text_mode_write linesep text"
  from assms(1,4) have m: "mkdir_error os (parent txt_path) = None"
    by (simp add: with_suffix_parent)
  from assms(2,3) have e: "utf8_encodable ?T" by (simp add: utf8_encodable_text_mode_write)
  with m assms(5) have w: "write_raw_txt os linesep text txt_path files = (None, files(txt_path \<mapsto> ?T))"
    by (simp add: write_raw_txt_def write_file_def)
  from assms(5) have r: "read_text os (files(txt_path \<mapsto> ?T)) txt_path = Inr (universal_newlines ?T)"
    by (simp add: read_text_def)
  from e have "utf8_encodable (universal_newlines ?T)" by (rule utf8_encodable_universal_newlines)
  then have "convert_to_csv_sync os (universal_newlines ?T) output_path (files(txt_path \<mapsto> ?T))
      = (None, (files(txt_path \<mapsto> ?T))(output_path \<mapsto> spec_csv_file (universal_newlines ?T)))"
    using assms(4,6) by (rule convert_to_csv_sync_writes)
  with assms(1) w r show ?thesis
    by (simp add: convert_to_format_def str_def)
qed

lemma convert_to_format_csv_unencodable:
  assumes "with_suffix output_path (str ''.txt'') = Inr txt_path"
    and "\<not> utf8_encodable text" and "utf8_encodable linesep"
    and "mkdir_error os (parent output_path) = None" and "open_error os txt_path = None"
  shows "convert_to_format os linesep text output_path (str ''csv'') files
       = (Some UnicodeEncodeError, files(txt_path \<mapsto> []))"
proof -
  from assms(1,4) have "mkdir_error os (parent txt_path) = None"
    by (simp add: with_suffix_parent)
  with assms show ?thesis
    by (simp add: convert_to_format_def str_def write_raw_txt_def write_file_def
        utf8_encodable_text_mode_write)
qed

lemma convert_to_format_csv_refused:
  assumes "with_suffix output_path (str ''.txt'') = Inr txt_path"
    and "utf8_encodable text" and "utf8_encodable linesep"
    and "mkdir_error os (parent output_path) = None"
    and "open_error os txt_path = None" and "open_error os output_path = Some e"
  shows "convert_to_format os linesep text output_path (str ''csv'') files
       = (Some e, files(txt_path \<mapsto> text_mode_write linesep text))"
proof -
  let ?T = "text_mode_write linesep text"
  from assms(1,4) have m: "mkdir_error os (parent txt_path) = None"
    by (simp add: with_suffix_parent)
  from assms(2,3) have e: "utf8_encodable ?T" by (simp add: utf8_encodable_text_mode_write)
  with m assms(5) have w: "write_raw_txt os linesep text txt_path files = (None, files(txt_path \<mapsto> ?T))"
    by (simp add: write_raw_txt_def write_file_def)
  from assms(5) have r: "read_text os (files(txt_path \<mapsto> ?T)) txt_path = Inr (universal_newlines ?T)"
    by (simp add: read_text_def)
  from assms(4,6) have "convert_to_csv_sync os (universal_newlines ?T) output_path (files(txt_path \<mapsto> ?T))
      = (Some e, files(txt_path \<mapsto> ?T))"
    by (rule convert_to_csv_sync_refused)
  with assms(1) w r show ?thesis
    by (simp add: convert_to_format_def str_def)
qed

lemmas eval_path = sample_csv_path_def sample_txt_path_def outputs_path_def with_suffix_def
  suffix_of_def str_def Let_def

lemma page_blocks_all_blank: "\<forall>t\<in>set pages. py_strip t = [] \<Longrightarrow> page_blocks i pages = []"
  by (induction pages arbitrary: i) (simp_all add: page_blocks_Nil page_blocks_Cons)

lemma process_pdf_all_blank:
  assumes "convert_from_path cap p = Inr images" and "images \<noteq> []"
    and "\<forall>img\<in>set images. image_to_string cap img = Inr (raw img) \<and> (\<forall>c\<in>set (raw img). is_space c)"
  shows "process_pdf cap p = Inr []"
proof -
  have "py_strip [] = []" by (simp add: py_strip_def)
  with assms(3) have "\<forall>t\<in>set (map (\<lambda>img. clean_text (raw img)) images). py_strip t = []"
    by (auto simp: clean_text_empty_iff [THEN iffD2])
  then have "document_blocks raw images = []"
    unfolding document_blocks_def by (rule page_blocks_all_blank)
  moreover from assms have "process_pdf cap p
      = Inr (py_join [LF, LF] (map block_text (document_blocks raw images)))"
    by (intro process_pdf_blocks) auto
  ultimately show ?thesis by simp
qed

lemma process_image_blank:
  assumes "image_open cap p = Inr img"
    and "(if mode_is_RGB cap img then Inr img else convert_RGB cap img) = Inr img'"
    and "image_to_string cap img' = Inr raw" and "\<forall>c\<in>set raw. is_space c"
  shows "process_image cap p = Inr []"
proof -
  from assms(4) have "clean_text raw = []" by (simp add: clean_text_empty_iff)
  with assms(3) have "extract_text_from_image cap img' = Inr []"
    by (simp add: extract_text_from_image_def run_tesseract_ocr_def)
  with assms(1,2) show ?thesis
    by (auto simp: process_image_def split: if_splits)
qed

lemma upload_file_blank:
  assumes "py_lower (suffix_of (name filename)) \<in> set allowed_extensions"
    and "fmt \<in> set allowed_formats"
    and "process_file cap \<lparr>parent = [str ''uploads''], name = fid @ py_lower (suffix_of (name filename))\<rparr>
          = Inr t"
    and "py_strip t = []"
  shows "upload_file cap linesep filename content fmt fid files
       = (Inl (HTTPException 400 NoTextExtracted),
          files(\<lparr>parent = [str ''uploads''], name = fid @ py_lower (suffix_of (name filename))\<rparr>
                 \<mapsto> content))"
  using assms by (simp add: upload_file_def Let_def)

lemmas eval_upload = blank_cap_def blank_upload_def suffix_of_def py_lower_def str_def
  allowed_extensions_def allowed_formats_def is_space_def py_strip_def

lemma hex_value_hex_digit: "d < 16 \<Longrightarrow> hex_value (hex_digit d) = Some d"
  by (auto simp: hex_value_def hex_digit_def)

lemma parse_string_chars_quote: "parse_string_chars acc (34 # rest) = Some (acc, rest)"
  by (cases rest) auto

lemma parse_string_chars_escape:
  "t \<noteq> [] \<Longrightarrow> parse_string_chars acc (json_escape c @ t) = parse_string_chars (acc @ [c]) t"
proof -
  assume "t \<noteq> []"
  then obtain e cs where t: "t = e # cs" by (cases t) auto
  consider "c = 92" | "c = 34" | "c = 8" | "c = 12" | "c = LF" | "c = CR" | "c = 9"
    | "c < 32" "c \<noteq> 8" "c \<noteq> 12" "c \<noteq> LF" "c \<noteq> CR" "c \<noteq> 9"
    | "32 \<le> c" "c \<noteq> 92" "c \<noteq> 34"
    by linarith
  then show ?thesis
  proof cases
    case 8
    then have d: "c div 16 < 16" "c mod 16 < 16" by simp_all
    have v: "((0 * 16 + 0) * 16 + c div 16) * 16 + c mod 16 = c" by simp
    from 8 have "json_escape c = [92, 117, 48, 48, hex_digit (c div 16), hex_digit (c mod 16)]"
      by (simp add: json_escape_def)
    moreover have "hex_value 48 = Some 0" by (simp add: hex_value_def)
    ultimately show ?thesis
      using hex_value_hex_digit [OF d(1)] hex_value_hex_digit [OF d(2)] v by (simp add: t)
  next
    case 9
    then show ?thesis by (simp add: json_escape_def t)
  qed (simp_all add: json_escape_def unescape_def t)
qed

lemma parse_string_chars_encoded:
  "parse_string_chars acc (concat (map json_escape s) @ 34 # rest) = Some (acc @ s, rest)"
proof (induction s arbitrary: acc)
  case Nil
  then show ?case by (simp add: parse_string_chars_quote)
next
  case (Cons c s)
  have "parse_string_chars acc (json_escape c @ (concat (map json_escape s) @ 34 # rest))
      = parse_string_chars (acc @ [c]) (concat (map json_escape s) @ 34 # rest)"
    by (rule parse_string_chars_escape) simp
  with Cons [of "acc @ [c]"] show ?case by simp
qed

lemma hd_str_nat: "is_digit (hd (str_nat n))"
proof -
  have "hd (str_nat n) \<in> set (str_nat n)" using str_nat_not_Nil by simp
  with set_str_nat [of n] show ?thesis by (auto simp: is_digit_def)
qed

lemma takeWhile_digits:
  "\<forall>c\<in>set ds. is_digit c \<Longrightarrow> rest = [] \<or> \<not> is_digit (hd rest)
   \<Longrightarrow> takeWhile is_digit (ds @ rest) = ds \<and> dropWhile is_digit (ds @ rest) = rest"
proof (induction ds)
  case Nil
  then show ?case by (cases rest) auto
next
  case (Cons a ds)
  then show ?case by simp
qed

lemma parse_int_str_int:
  assumes "rest = [] \<or> \<not> is_digit (hd rest)"
  shows "parse_int (str_int i @ rest) = Some (i, rest)"
proof -
  have digits: "\<forall>c\<in>set (str_nat n). is_digit c" for n
    using set_str_nat [of n] by (auto simp: is_digit_def)
  have tw: "takeWhile is_digit (str_nat n @ rest) = str_nat n"
    and dw: "dropWhile is_digit (str_nat n @ rest) = rest" for n
    using takeWhile_digits [OF digits assms] by auto
  show ?thesis
  proof (cases "i < 0")
    case True
    then have s: "str_int i @ rest = 45 # (str_nat (nat (- i)) @ rest)" by (simp add: str_int_def)
    from True show ?thesis
      unfolding s by (simp add: parse_int_def Let_def tw dw str_nat_decode str_nat_not_Nil)
  next
    case False
    then have s: "str_int i @ rest = str_nat (nat i) @ rest" by (simp add: str_int_def)
    have "hd (str_nat (nat i) @ rest) \<noteq> 45"
      using hd_str_nat [of "nat i"] str_nat_not_Nil [of "nat i"] by (auto simp: is_digit_def)
    with False show ?thesis
      unfolding s by (simp add: parse_int_def Let_def tw dw str_nat_decode str_nat_not_Nil)
  qed
qed

lemma is_json_ws_simps [simp]:
  "is_json_ws 32" "is_json_ws LF" "\<not> is_json_ws 34" "\<not> is_json_ws 91" "\<not> is_json_ws 123"
  "\<not> is_json_ws 93" "\<not> is_json_ws 125" "\<not> is_json_ws 44" "\<not> is_json_ws 58" "\<not> is_json_ws 45"
  by (simp_all add: is_json_ws_def)

lemma is_digit_simps [simp]:
  "\<not> is_digit 34" "\<not> is_digit 91" "\<not> is_digit 123" "\<not> is_digit 93" "\<not> is_digit 125"
  "\<not> is_digit 44" "\<not> is_digit 58" "\<not> is_digit 45" "\<not> is_digit LF" "\<not> is_digit 32"
  by (simp_all add: is_digit_def)

lemma is_digit_not_ws: "is_digit c \<Longrightarrow> \<not> is_json_ws c"
  by (auto simp: is_digit_def is_json_ws_def)

lemma skip_ws_newline_indent: "skip_ws (newline_indent k @ t) = skip_ws t"
proof -
  have "skip_ws (replicate n 32 @ t) = skip_ws t" for n
    by (induction n) (simp_all add: skip_ws_def)
  then show ?thesis by (simp add: newline_indent_def skip_ws_def)
qed

lemma skip_ws_no_ws: "t \<noteq> [] \<Longrightarrow> \<not> is_json_ws (hd t) \<Longrightarrow> skip_ws t = t"
  by (cases t) (simp_all add: skip_ws_def)

lemma hd_json_encode: "json_encode level v \<noteq> [] \<and> value_start (hd (json_encode level v))"
proof (cases v)
  case (JInt i)
  have "str_int i \<noteq> [] \<and> value_start (hd (str_int i))"
    using hd_str_nat [of "nat i"] str_nat_not_Nil [of "nat i"]
    by (simp add: str_int_def value_start_def)
  with JInt show ?thesis by simp
next
  case (JStr s)
  then show ?thesis by (simp add: encode_basestring_def value_start_def)
next
  case (JList xs)
  then show ?thesis by (simp add: value_start_def str_def)
next
  case (JDict kvs)
  then show ?thesis by (simp add: value_start_def str_def)
qed

lemma value_start_props:
  "value_start c \<Longrightarrow> \<not> is_json_ws c \<and> c \<noteq> 93 \<and> c \<noteq> 125 \<and> c \<noteq> 44 \<and> c \<noteq> 58"
  by (auto simp: value_start_def is_digit_def is_json_ws_def)

lemma hd_encode_append:
  "json_encode level v @ t \<noteq> [] \<and> value_start (hd (json_encode level v @ t))"
  using hd_json_encode [of level v] by simp

lemma skip_ws_before_value: "skip_ws (newline_indent k @ json_encode level v @ t) = json_encode level v @ t"
  using hd_encode_append [of level v t] value_start_props
  by (simp add: skip_ws_newline_indent skip_ws_no_ws)

lemma skip_ws_space_value: "skip_ws (32 # json_encode level v @ t) = json_encode level v @ t"
proof -
  have "skip_ws (32 # json_encode level v @ t) = skip_ws (json_encode level v @ t)"
    by (simp add: skip_ws_def)
  then show ?thesis
    using hd_encode_append [of level v t] value_start_props by (simp add: skip_ws_no_ws)
qed

lemma parse_items_encoded:
  assumes "\<And>x fuel level rest. x \<in> set xs \<Longrightarrow> json_fuel x \<le> length fuel
      \<Longrightarrow> rest = [] \<or> \<not> is_digit (hd rest)
      \<Longrightarrow> parse_value fuel (json_encode level x @ rest) = Some (x, rest)"
    and "xs \<noteq> []" and "sum_list (map (\<lambda>x. 1 + json_fuel x) xs) \<le> length fuel"
  shows "parse_items fuel
           (py_join (44 # newline_indent k) (map (json_encode k) xs) @ newline_indent l @ 93 # rest)
         = Some (xs, rest)"
  using assms
proof (induction xs arbitrary: fuel)
  case Nil
  then show ?case by simp
next
  case (Cons x xs)
  from Cons.prems(3) obtain f fuel' where fuel: "fuel = f # fuel'" by (cases fuel) auto
  with Cons.prems(3) have fx: "json_fuel x \<le> length fuel'"
    and fxs: "sum_list (map (\<lambda>x. 1 + json_fuel x) xs) \<le> length fuel'" by simp_all
  show ?case
  proof (cases "xs = []")
    case True
    let ?R = "newline_indent l @ 93 # rest"
    have "parse_value fuel' (json_encode k x @ ?R) = Some (x, ?R)"
      using fx by (intro Cons.prems(1)) (simp_all add: newline_indent_def)
    moreover have "skip_ws ?R = 93 # rest"
      by (simp add: skip_ws_newline_indent skip_ws_no_ws)
    ultimately show ?thesis using True by (simp add: fuel)
  next
    case False
    then obtain y ys where xs: "xs = y # ys" by (cases xs) auto
    let ?T = "py_join (44 # newline_indent k) (map (json_encode k) xs) @ newline_indent l @ 93 # rest"
    let ?R = "44 # newline_indent k @ ?T"
    have IH: "parse_items fuel' ?T = Some (xs, rest)"
      using False fxs Cons.prems(1) by (intro Cons.IH) auto
    have pv: "parse_value fuel' (json_encode k x @ ?R) = Some (x, ?R)"
      using fx by (intro Cons.prems(1)) simp_all
    have sk: "skip_ws ?R = ?R" by (simp add: skip_ws_no_ws)
    have sk2: "skip_ws (newline_indent k @ ?T) = ?T"
    proof -
      obtain t where "?T = json_encode k y @ t"
        unfolding xs by (cases ys) auto
      then show ?thesis by (simp only: skip_ws_before_value)
    qed
    have enc: "py_join (44 # newline_indent k) (map (json_encode k) (x # xs)) @ newline_indent l @ 93 # rest
        = json_encode k x @ ?R"
      unfolding xs by simp
    show ?thesis
      unfolding enc fuel using pv sk sk2 IH by simp
  qed
qed

lemma parse_members_encoded:
  assumes "\<And>kv fuel level rest. kv \<in> set kvs \<Longrightarrow> json_fuel (snd kv) \<le> length fuel
      \<Longrightarrow> rest = [] \<or> \<not> is_digit (hd rest)
      \<Longrightarrow> parse_value fuel (json_encode level (snd kv) @ rest) = Some (snd kv, rest)"
    and "kvs \<noteq> []" and "sum_list (map (\<lambda>kv. 1 + json_fuel (snd kv)) kvs) \<le> length fuel"
  shows "parse_members fuel
           (py_join (44 # newline_indent k)
              (map (\<lambda>kv. encode_basestring (fst kv) @ 58 # 32 # json_encode k (snd kv)) kvs)
            @ newline_indent l @ 125 # rest)
         = Some (kvs, rest)"
  using assms
proof (induction kvs arbitrary: fuel)
  case Nil
  then show ?case by simp
next
  case (Cons kv kvs)
  let ?item = "\<lambda>kv. encode_basestring (fst kv) @ 58 # 32 # json_encode k (snd kv)"
  from Cons.prems(3) obtain f fuel' where fuel: "fuel = f # fuel'" by (cases fuel) auto
  with Cons.prems(3) have fx: "json_fuel (snd kv) \<le> length fuel'"
    and fxs: "sum_list (map (\<lambda>kv. 1 + json_fuel (snd kv)) kvs) \<le> length fuel'" by simp_all
  have key: "parse_string_chars [] (concat (map json_escape (fst kv)) @ 34 # t) = Some (fst kv, t)" for t
    using parse_string_chars_encoded [of "[]" "fst kv" t] by simp
  have item: "?item kv @ t = 34 # (concat (map json_escape (fst kv)) @ 34 # (58 # 32 # json_encode k (snd kv) @ t))" for t
    by (simp add: encode_basestring_def)
  have colon: "skip_ws (58 # t) = 58 # t" for t
    by (simp add: skip_ws_no_ws)
  have step: "parse_members (f # fuel') (?item kv @ t)
      = (case parse_value fuel' (json_encode k (snd kv) @ t) of None \<Rightarrow> None
         | Some (v, r2) \<Rightarrow>
             (let r3 = skip_ws r2
              in if r3 \<noteq> [] \<and> hd r3 = 44 then
                   (case parse_members fuel' (skip_ws (tl r3)) of None \<Rightarrow> None
                    | Some (kvs, r4) \<Rightarrow> Some ((fst kv, v) # kvs, r4))
                 else if r3 \<noteq> [] \<and> hd r3 = 125 then Some ([(fst kv, v)], tl r3)
                 else None))" for t
    unfolding item by (simp add: key colon skip_ws_space_value)
  show ?case
  proof (cases "kvs = []")
    case True
    let ?R = "newline_indent l @ 125 # rest"
    have pv: "parse_value fuel' (json_encode k (snd kv) @ ?R) = Some (snd kv, ?R)"
      using fx by (intro Cons.prems(1)) (simp_all add: newline_indent_def)
    have sk: "skip_ws ?R = 125 # rest"
      by (simp add: skip_ws_newline_indent skip_ws_no_ws)
    have "parse_members (f # fuel') (?item kv @ ?R) = Some ([kv], rest)"
      unfolding step pv by (simp add: sk)
    with True show ?thesis by (simp add: fuel)
  next
    case False
    then obtain y ys where kvs: "kvs = y # ys" by (cases kvs) auto
    let ?T = "py_join (44 # newline_indent k) (map ?item kvs) @ newline_indent l @ 125 # rest"
    let ?R = "44 # newline_indent k @ ?T"
    have IH: "parse_members fuel' ?T = Some (kvs, rest)"
      using False fxs Cons.prems(1) by (intro Cons.IH) auto
    have pv: "parse_value fuel' (json_encode k (snd kv) @ ?R) = Some (snd kv, ?R)"
      using fx by (intro Cons.prems(1)) simp_all
    have sk: "skip_ws ?R = ?R" by (simp add: skip_ws_no_ws)
    have sk2: "skip_ws (newline_indent k @ ?T) = ?T"
    proof -
      obtain t where "?T = 34 # t"
        unfolding kvs by (cases ys) (auto simp: encode_basestring_def)
      then show ?thesis by (simp add: skip_ws_newline_indent skip_ws_no_ws)
    qed
    have enc: "py_join (44 # newline_indent k) (map ?item (kv # kvs)) @ newline_indent l @ 125 # rest
        = ?item kv @ ?R"
      unfolding kvs by simp
    have "parse_members (f # fuel') (?item kv @ ?R) = Some (kv # kvs, rest)"
      unfolding step pv by (simp add: sk sk2 IH)
    then show ?thesis unfolding enc fuel .
  qed
qed

lemma parse_value_encoded:
  "json_fuel v \<le> length fuel \<Longrightarrow> rest = [] \<or> \<not> is_digit (hd rest)
   \<Longrightarrow> parse_value fuel (json_encode level v @ rest) = Some (v, rest)"
proof (induction v arbitrary: fuel level rest)
  case (JInt i)
  then obtain f fuel' where fuel: "fuel = f # fuel'" by (cases fuel) auto
  have "str_int i @ rest \<noteq> []" "hd (str_int i @ rest) \<noteq> 34" "hd (str_int i @ rest) \<noteq> 91"
    "hd (str_int i @ rest) \<noteq> 123"
    using hd_str_nat [of "nat i"] str_nat_not_Nil [of "nat i"]
    by (auto simp: str_int_def is_digit_def)
  with JInt.prems(2) show ?case by (simp add: fuel parse_int_str_int)
next
  case (JStr s)
  then obtain f fuel' where fuel: "fuel = f # fuel'" by (cases fuel) auto
  show ?case
    by (simp add: fuel encode_basestring_def parse_string_chars_encoded)
next
  case (JList xs)
  then obtain f fuel' where fuel: "fuel = f # fuel'" by (cases fuel) auto
  show ?case
  proof (cases "xs = []")
    case True
    then show ?thesis by (simp add: fuel str_def skip_ws_no_ws)
  next
    case False
    let ?k = "level + 1"
    let ?T = "py_join (44 # newline_indent ?k) (map (json_encode ?k) xs) @ newline_indent level @ 93 # rest"
    from JList.prems(1) have "sum_list (map (\<lambda>x. 1 + json_fuel x) xs) \<le> length fuel'"
      by (simp add: fuel)
    with False JList.IH have items: "parse_items fuel' ?T = Some (xs, rest)"
      by (intro parse_items_encoded) auto
    obtain y ys where xs: "xs = y # ys" using False by (cases xs) auto
    obtain t where t: "?T = json_encode ?k y @ t" unfolding xs by (cases ys) auto
    have sk: "skip_ws (newline_indent ?k @ ?T) = ?T"
      unfolding t by (rule skip_ws_before_value)
    have hdT: "?T \<noteq> []" "hd ?T \<noteq> 93"
      using hd_encode_append [of ?k y t] value_start_props unfolding t by auto
    have "json_encode level (JList xs) @ rest = 91 # (newline_indent ?k @ ?T)"
      using False by simp
    then show ?thesis using sk hdT items by (simp add: fuel)
  qed
next
  case (JDict kvs)
  then obtain f fuel' where fuel: "fuel = f # fuel'" by (cases fuel) auto
  show ?case
  proof (cases "kvs = []")
    case True
    then show ?thesis by (simp add: fuel str_def skip_ws_no_ws)
  next
    case False
    let ?k = "level + 1"
    let ?item = "\<lambda>kv. encode_basestring (fst kv) @ 58 # 32 # json_encode ?k (snd kv)"
    let ?T = "py_join (44 # newline_indent ?k) (map ?item kvs) @ newline_indent level @ 125 # rest"
    from JDict.prems(1) have sum: "sum_list (map (\<lambda>kv. 1 + json_fuel (snd kv)) kvs) \<le> length fuel'"
      by (simp add: fuel)
    have IH: "parse_value fuel (json_encode level (snd kv) @ rest) = Some (snd kv, rest)"
      if "kv \<in> set kvs" "json_fuel (snd kv) \<le> length fuel" "rest = [] \<or> \<not> is_digit (hd rest)"
      for kv fuel level rest
    proof -
      have "snd kv \<in> Basic_BNFs.snds kv" by (cases kv) simp
      with that show ?thesis by (intro JDict.IH) auto
    qed
    have members: "parse_members fuel' ?T = Some (kvs, rest)"
      using IH False sum by (rule parse_members_encoded)
    obtain y ys where kvs: "kvs = y # ys" using False by (cases kvs) auto
    obtain t where t: "?T = 34 # t" unfolding kvs by (cases ys) (auto simp: encode_basestring_def)
    have sk: "skip_ws (newline_indent ?k @ ?T) = ?T"
      unfolding t by (simp add: skip_ws_newline_indent skip_ws_no_ws)
    have hdT: "?T \<noteq> []" "hd ?T \<noteq> 125" unfolding t by auto
    have "json_encode level (JDict kvs) @ rest = 123 # (newline_indent ?k @ ?T)"
      using False by simp
    then show ?thesis using sk hdT members by (simp add: fuel)
  qed
qed

lemma join_fuel_bound:
  "xs \<noteq> [] \<Longrightarrow> \<forall>x\<in>set xs. g x \<le> length (e x) \<Longrightarrow> sep \<noteq> []
   \<Longrightarrow> sum_list (map (\<lambda>x. 1 + g x) xs) \<le> length (py_join sep (map e xs)) + 1"
proof (induction xs)
  case Nil
  then show ?case by simp
next
  case (Cons x xs)
  show ?case
  proof (cases "xs = []")
    case True
    with Cons.prems show ?thesis by simp
  next
    case False
    then obtain y ys where xs: "xs = y # ys" by (cases xs) auto
    from False Cons have "sum_list (map (\<lambda>x. 1 + g x) xs) \<le> length (py_join sep (map e xs)) + 1"
      by simp
    moreover from Cons.prems have "g x \<le> length (e x)" "1 \<le> length sep"
      by (simp_all add: Suc_le_eq)
    moreover have "length (py_join sep (map e (x # xs)))
        = length (e x) + length sep + length (py_join sep (map e xs))"
      unfolding xs by simp
    ultimately show ?thesis by simp
  qed
qed

lemma json_fuel_le_length: "json_fuel v \<le> length (json_encode level v)"
proof (induction v arbitrary: level)
  case (JInt i)
  have "str_int i \<noteq> []" using str_nat_not_Nil by (simp add: str_int_def)
  then show ?case by (simp add: Suc_le_eq)
next
  case (JStr s)
  then show ?case by (simp add: encode_basestring_def)
next
  case (JList xs)
  show ?case
  proof (cases "xs = []")
    case True
    then show ?thesis by (simp add: str_def)
  next
    case False
    have "sum_list (map (\<lambda>x. 1 + json_fuel x) xs)
        \<le> length (py_join ([44] @ newline_indent (level + 1)) (map (json_encode (level + 1)) xs)) + 1"
      using False JList by (intro join_fuel_bound) auto
    with False show ?thesis by (simp add: newline_indent_def)
  qed
next
  case (JDict kvs)
  show ?case
  proof (cases "kvs = []")
    case True
    then show ?thesis by (simp add: str_def)
  next
    case False
    have item: "json_fuel (snd kv)
        \<le> length (encode_basestring (fst kv) @ [58, 32] @ json_encode (level + 1) (snd kv))"
      if "kv \<in> set kvs" for kv
    proof -
      have "snd kv \<in> Basic_BNFs.snds kv" by (cases kv) simp
      with that JDict have "json_fuel (snd kv) \<le> length (json_encode (level + 1) (snd kv))" by blast
      then show ?thesis by simp
    qed
    have "sum_list (map (\<lambda>kv. 1 + json_fuel (snd kv)) kvs)
        \<le> length (py_join ([44] @ newline_indent (level + 1))
            (map (\<lambda>kv. encode_basestring (fst kv) @ [58, 32] @ json_encode (level + 1) (snd kv)) kvs)) + 1"
      using False item by (intro join_fuel_bound) auto
    with False show ?thesis by (simp add: newline_indent_def)
  qed
qed

lemma json_loads_dumps: "json_loads (json_dumps v) = Some v"
proof -
  let ?s = "json_encode 0 v"
  have "json_fuel v \<le> length (?s @ ?s @ [0])"
    using json_fuel_le_length [of v 0] by simp
  then have "parse_value (?s @ ?s @ [0]) (?s @ []) = Some (v, [])"
    by (intro parse_value_encoded) simp_all
  moreover have "skip_ws ?s = ?s"
    using hd_json_encode [of 0 v] value_start_props by (simp add: skip_ws_no_ws)
  moreover have "skip_ws [] = []" by (simp add: skip_ws_def)
  ultimately show ?thesis by (simp add: json_loads_def json_dumps_def)
qed

chapter \<open>The claims\<close>

text \<open>
  C1. For a document whose pages are all blank, the extraction does not fail: it returns
  the empty text, for a PDF of at least one page as for a single image. It is the caller,
  \<open>upload_file\<close>, that rejects a text that is empty after trimming, with status 400 and
  the detail that no text could be extracted; the uploaded file stays where it was saved.
\<close>

theorem blank_document_rejected_by_caller:
  "(py_lower (suffix_of (name p)) = str ''.pdf'' \<and> convert_from_path cap p = Inr images
      \<and> images \<noteq> []
      \<and> (\<forall>img\<in>set images. image_to_string cap img = Inr (raw img) \<and> (\<forall>c\<in>set (raw img). is_space c))
     \<longrightarrow> process_file cap p = Inr [])
   \<and> (py_lower (suffix_of (name p)) \<in> set [str ''.png'', str ''.jpg'', str ''.jpeg'', str ''.tiff'', str ''.bmp'']
      \<and> image_open cap p = Inr img
      \<and> (if mode_is_RGB cap img then Inr img else convert_RGB cap img) = Inr img'
      \<and> image_to_string cap img' = Inr raw1 \<and> (\<forall>c\<in>set raw1. is_space c)
     \<longrightarrow> process_file cap p = Inr [])
   \<and> (py_lower (suffix_of (name filename)) \<in> set allowed_extensions \<and> fmt \<in> set allowed_formats
      \<and> process_file cap \<lparr>parent = [str ''uploads''], name = fid @ py_lower (suffix_of (name filename))\<rparr>
           = Inr t
      \<and> py_strip t = []
     \<longrightarrow> upload_file cap linesep filename content fmt fid files
         = (Inl (HTTPException 400 NoTextExtracted),
            files(\<lparr>parent = [str ''uploads''], name = fid @ py_lower (suffix_of (name filename))\<rparr>
                   \<mapsto> content)))"
proof (intro conjI impI)
  assume h: "py_lower (suffix_of (name p)) = str ''.pdf'' \<and> convert_from_path cap p = Inr images
      \<and> images \<noteq> []
      \<and> (\<forall>img\<in>set images. image_to_string cap img = Inr (raw img) \<and> (\<forall>c\<in>set (raw img). is_space c))"
  then have "process_pdf cap p = Inr []" by (intro process_pdf_all_blank) auto
  with h show "process_file cap p = Inr []" by (simp add: process_file_def)
next
  assume h: "py_lower (suffix_of (name p)) \<in> set [str ''.png'', str ''.jpg'', str ''.jpeg'', str ''.tiff'', str ''.bmp'']
      \<and> image_open cap p = Inr img
      \<and> (if mode_is_RGB cap img then Inr img else convert_RGB cap img) = Inr img'
      \<and> image_to_string cap img' = Inr raw1 \<and> (\<forall>c\<in>set raw1. is_space c)"
  then have "image_open cap p = Inr img"
    and "(if mode_is_RGB cap img then Inr img else convert_RGB cap img) = Inr img'"
    and "image_to_string cap img' = Inr raw1" and "\<forall>c\<in>set raw1. is_space c"
    by blast+
  then have "process_image cap p = Inr []" by (rule process_image_blank)
  moreover from h have "py_lower (suffix_of (name p)) \<noteq> str ''.pdf''" by (auto simp: str_def)
  ultimately show "process_file cap p = Inr []" using h by (simp add: process_file_def)
next
  assume "py_lower (suffix_of (name filename)) \<in> set allowed_extensions \<and> fmt \<in> set allowed_formats
      \<and> process_file cap \<lparr>parent = [str ''uploads''], name = fid @ py_lower (suffix_of (name filename))\<rparr>
           = Inr t
      \<and> py_strip t = []"
  then show "upload_file cap linesep filename content fmt fid files
         = (Inl (HTTPException 400 NoTextExtracted),
            files(\<lparr>parent = [str ''uploads''], name = fid @ py_lower (suffix_of (name filename))\<rparr>
                   \<mapsto> content))"
    by (intro upload_file_blank) auto
qed

theorem blank_document_rejected_by_caller_witness:
  "py_lower (suffix_of (str ''Scan.PDF'')) = str ''.pdf''
   \<and> convert_from_path blank_cap blank_upload = Inr [0, 1]
   \<and> image_to_string blank_cap 0 = Inr [32, 12] \<and> image_to_string blank_cap 1 = Inr [32, 12]
   \<and> is_space 32 \<and> is_space 12
   \<and> process_file blank_cap blank_upload = Inr []
   \<and> upload_file blank_cap [LF] \<lparr>parent = [], name = str ''Scan.PDF''\<rparr> [37, 80, 68, 70] (str ''json'')
        (str ''id1'') Map.empty
       = (Inl (HTTPException 400 NoTextExtracted), Map.empty(blank_upload \<mapsto> [37, 80, 68, 70]))"
proof -
  have e: "py_lower (suffix_of (str ''Scan.PDF'')) = str ''.pdf''" by (simp add: eval_upload)
  have e': "py_lower (suffix_of (name blank_upload)) = str ''.pdf''" by (simp add: eval_upload)
  have c: "convert_from_path blank_cap blank_upload = Inr [0, 1]" by (simp add: blank_cap_def)
  have o: "image_to_string blank_cap 0 = Inr [32, 12]" "image_to_string blank_cap 1 = Inr [32, 12]"
    by (simp_all add: blank_cap_def)
  have sp: "is_space 32" "is_space 12" by (simp_all add: is_space_def)
  have pages: "\<forall>img\<in>set [0, 1]. image_to_string blank_cap img = Inr ((\<lambda>n. [32, 12]) img)
      \<and> (\<forall>c\<in>set ((\<lambda>n. [32, 12]) img). is_space c)"
    using sp by (simp add: blank_cap_def)
  have u: "\<lparr>parent = [str ''uploads''], name = str ''id1'' @ py_lower (suffix_of (name \<lparr>parent = [], name = str ''Scan.PDF''\<rparr>))\<rparr>
      = blank_upload"
    by (simp add: eval_upload)
  have pf: "process_file blank_cap blank_upload = Inr []"
    using blank_document_rejected_by_caller [of blank_upload blank_cap "[0, 1]" "\<lambda>n. [32, 12]"]
      e' c pages by blast
  have "upload_file blank_cap [LF] \<lparr>parent = [], name = str ''Scan.PDF''\<rparr> [37, 80, 68, 70] (str ''json'')
        (str ''id1'') Map.empty
       = (Inl (HTTPException 400 NoTextExtracted), Map.empty(blank_upload \<mapsto> [37, 80, 68, 70]))"
    using blank_document_rejected_by_caller [where cap = blank_cap and fid = "str ''id1''"
        and filename = "\<lparr>parent = [], name = str ''Scan.PDF''\<rparr>" and fmt = "str ''json''"
        and t = "[]" and linesep = "[LF]" and content = "[37, 80, 68, 70]" and files = Map.empty]
      pf e unfolding u by (simp add: allowed_extensions_def allowed_formats_def py_strip_def str_def)
  with e c o sp pf show ?thesis by blast
qed

theorem blank_document_returns_empty_text_counterexample:
  "convert_from_path blank_cap blank_upload = Inr [0, 1]
   \<and> image_to_string blank_cap 0 = Inr [32, 12] \<and> image_to_string blank_cap 1 = Inr [32, 12]
   \<and> clean_text [32, 12] = []
   \<and> process_file blank_cap blank_upload = Inr []"
  by (simp add: process_file_def process_pdf_def extract_text_from_image_def run_tesseract_ocr_def
      clean_text_def collapse_newlines.simps eval_upload)

text \<open>
  C2. The text \<open>a CR LF b CR c\<close> holds a CRLF pair and a lone CR. The structurer replaces
  the pair and leaves the lone CR, where the specification replaces both: the branch for
  the lone CR is an \<open>elif\<close> of the branch for the pair. So a CR stays in the text the
  paragraphs are split from, and a paragraph break written CR CR is lost.
\<close>

theorem mixed_line_endings_keep_CR:
  "normalize_newlines [97, CR, LF, 98, CR, 99] = [97, LF, 98, CR, 99]
   \<and> spec_line_endings [97, CR, LF, 98, CR, 99] = [97, LF, 98, LF, 99]
   \<and> CR \<in> set (normalize_newlines [97, CR, LF, 98, CR, 99])
   \<and> paragraphs (parse_text_to_structured_data [97, CR, LF, CR, LF, 98, CR, CR, 99])
       = [[97], [98, CR, CR, 99]]
   \<and> spec_paragraphs (spec_line_endings [97, CR, LF, CR, LF, 98, CR, CR, 99])
       = [[97], [98], [99]]"
  by (simp add: eval_parse)

text \<open>
  C3. For every text, the paragraphs are the non-empty trimmed blocks between double
  newlines of the text with its line endings normalized, in order; the sentences are, in
  paragraph order, the non-empty trimmed pieces between runs of terminators. For the text
  of the specification's example they are the lists it gives.
\<close>

theorem paragraphs_and_sentences:
  "paragraphs (parse_text_to_structured_data text) = spec_paragraphs (normalize_newlines text)
   \<and> sentences (parse_text_to_structured_data text)
       = spec_sentences (paragraphs (parse_text_to_structured_data text))
   \<and> re_split_terminators s = spec_split_runs [] s
   \<and> paragraphs (parse_text_to_structured_data
         (str ''Hello world. Foo bar!\<newline>\<newline>Next para? Yes.''))
       = [str ''Hello world. Foo bar!'', str ''Next para? Yes.'']
   \<and> sentences (parse_text_to_structured_data
         (str ''Hello world. Foo bar!\<newline>\<newline>Next para? Yes.''))
       = [str ''Hello world'', str ''Foo bar'', str ''Next para'', str ''Yes'']"
proof (intro conjI)
  show "paragraphs (parse_text_to_structured_data text) = spec_paragraphs (normalize_newlines text)"
    by (simp add: parse_no_fault split_paragraphs_def spec_paragraphs_def filter_map_strip)
  show "sentences (parse_text_to_structured_data text)
       = spec_sentences (paragraphs (parse_text_to_structured_data text))"
    by (simp add: parse_no_fault sentences_loop_concat spec_sentences_def)
  show "re_split_terminators s = spec_split_runs [] s" by (rule re_split_spec)
  show "paragraphs (parse_text_to_structured_data
         (str ''Hello world. Foo bar!\<newline>\<newline>Next para? Yes.''))
       = [str ''Hello world. Foo bar!'', str ''Next para? Yes.'']"
    by (simp add: eval_parse)
  show "sentences (parse_text_to_structured_data
         (str ''Hello world. Foo bar!\<newline>\<newline>Next para? Yes.''))
       = [str ''Hello world'', str ''Foo bar'', str ''Next para'', str ''Yes'']"
    by (simp add: eval_parse)
qed

text \<open>
  C4. For a document of several pages whose pages are all recognized, the text of the
  document is the join of one block per non-blank page: the page marker of the page's own
  number, a newline, the page's text. The blocks come in strictly increasing page number,
  the numbers are exactly those of the non-blank pages, markers of different pages differ,
  and cutting the text at its double newlines gives the blocks back.
\<close>

theorem page_markers_increasing:
  assumes "convert_from_path cap pdf = Inr images" and "images \<noteq> []"
    and "\<forall>img\<in>set images. image_to_string cap img = Inr (raw img)"
  shows "process_pdf cap pdf = Inr (py_join [LF, LF] (map block_text (document_blocks raw images)))
    \<and> sorted_wrt (<) (map fst (document_blocks raw images))
    \<and> set (document_blocks raw images)
        = {(k + 1, clean_text (raw (images ! k))) | k.
             k < length images \<and> py_strip (clean_text (raw (images ! k))) \<noteq> []}
    \<and> (document_blocks raw images \<noteq> []
        \<longrightarrow> py_split [LF, LF] (py_join [LF, LF] (map block_text (document_blocks raw images)))
            = map block_text (document_blocks raw images))
    \<and> inj page_marker"
proof (intro conjI impI)
  show "process_pdf cap pdf = Inr (py_join [LF, LF] (map block_text (document_blocks raw images)))"
    using assms by (rule process_pdf_blocks)
  show "sorted_wrt (<) (map fst (document_blocks raw images))"
    unfolding document_blocks_def by (rule page_blocks_indices_sorted)
  show "set (document_blocks raw images)
        = {(k + 1, clean_text (raw (images ! k))) | k.
             k < length images \<and> py_strip (clean_text (raw (images ! k))) \<noteq> []}"
    unfolding document_blocks_def page_blocks_set by auto
  show "inj page_marker" by (rule inj_page_marker)
next
  assume "document_blocks raw images \<noteq> []"
  then have "map block_text (document_blocks raw images) \<noteq> []" by simp
  with document_blocks_props
  show "py_split [LF, LF] (py_join [LF, LF] (map block_text (document_blocks raw images)))
            = map block_text (document_blocks raw images)"
    by (intro py_split_document) blast+
qed

theorem page_markers_increasing_witness:
  "convert_from_path sample_cap sample_pdf = Inr [0, 1, 2]
   \<and> image_to_string sample_cap 0 = Inr (sample_raw 0)
   \<and> image_to_string sample_cap 1 = Inr (sample_raw 1)
   \<and> image_to_string sample_cap 2 = Inr (sample_raw 2)
   \<and> document_blocks sample_raw [0, 1, 2] = [(1, str ''Hello\<newline>world''), (3, str ''Bye'')]
   \<and> process_pdf sample_cap sample_pdf
       = Inr (str ''--- Page 1 ---\<newline>Hello\<newline>world\<newline>\<newline>--- Page 3 ---\<newline>Bye'')
   \<and> py_split [LF, LF] (str ''--- Page 1 ---\<newline>Hello\<newline>world\<newline>\<newline>--- Page 3 ---\<newline>Bye'')
       = [str ''--- Page 1 ---\<newline>Hello\<newline>world'', str ''--- Page 3 ---\<newline>Bye'']"
proof -
  have h1: "convert_from_path sample_cap sample_pdf = Inr [0, 1, 2]" and h2: "[0, 1, 2 :: nat] \<noteq> []"
    and h3: "\<forall>img\<in>set [0, 1, 2]. image_to_string sample_cap img = Inr (sample_raw img)"
    by (simp_all add: sample_cap_def)
  have blocks: "document_blocks sample_raw [0, 1, 2] = [(1, str ''Hello\<newline>world''), (3, str ''Bye'')]"
    by (simp add: eval_ocr)
  have texts: "map block_text [(1, str ''Hello\<newline>world''), (3, str ''Bye'')]
      = [str ''--- Page 1 ---\<newline>Hello\<newline>world'', str ''--- Page 3 ---\<newline>Bye'']"
    by (simp add: eval_ocr)
  have doc: "py_join [LF, LF] [str ''--- Page 1 ---\<newline>Hello\<newline>world'', str ''--- Page 3 ---\<newline>Bye'']
      = str ''--- Page 1 ---\<newline>Hello\<newline>world\<newline>\<newline>--- Page 3 ---\<newline>Bye''"
    by (simp add: str_def)
  from page_markers_increasing [OF h1 h2 h3]
  have "process_pdf sample_cap sample_pdf
         = Inr (py_join [LF, LF] (map block_text (document_blocks sample_raw [0, 1, 2])))"
    and "document_blocks sample_raw [0, 1, 2] \<noteq> []
        \<longrightarrow> py_split [LF, LF] (py_join [LF, LF] (map block_text (document_blocks sample_raw [0, 1, 2])))
            = map block_text (document_blocks sample_raw [0, 1, 2])"
    by blast+
  then show ?thesis unfolding blocks texts doc using h1 h3 by simp
qed

text \<open>
  C5. For every recognition result, the normalization is the one the specification words:
  trim each line, drop the empty ones, rejoin with single newlines, collapse runs of three
  or more newlines to two; the collapsing loop does that on every text. When the result
  holds nothing but whitespace, the extractor returns the empty text, not an error (and
  only then).
\<close>

theorem clean_text_normalizes:
  "clean_text raw = spec_normalize raw
   \<and> collapse_newlines s = spec_collapse_runs s
   \<and> (image_to_string cap img = Inr raw
        \<longrightarrow> (extract_text_from_image cap img = Inr [] \<longleftrightarrow> (\<forall>c\<in>set raw. is_space c)))"
proof (intro conjI impI)
  show "clean_text raw = spec_normalize raw" by (rule clean_text_spec)
  show "collapse_newlines s = spec_collapse_runs s" by (rule collapse_newlines_spec)
next
  assume "image_to_string cap img = Inr raw"
  then have "extract_text_from_image cap img = Inr (clean_text raw)"
    by (simp add: extract_text_from_image_def run_tesseract_ocr_def)
  then show "extract_text_from_image cap img = Inr [] \<longleftrightarrow> (\<forall>c\<in>set raw. is_space c)"
    by (simp add: clean_text_empty_iff)
qed

theorem clean_text_normalizes_witness:
  "image_to_string sample_cap 1 = Inr [32, 12]
   \<and> extract_text_from_image sample_cap 1 = Inr []
   \<and> clean_text (str ''  Hello \<newline>\<newline> world '') = str ''Hello\<newline>world''
   \<and> collapse_newlines (str ''a\<newline>\<newline>\<newline>\<newline>\<newline>b'') = str ''a\<newline>\<newline>b''"
proof -
  have h: "image_to_string sample_cap 1 = Inr [32, 12]"
    by (simp add: sample_cap_def sample_raw_def)
  have sp: "\<forall>c\<in>set [32, 12]. is_space c" by (simp add: is_space_def)
  from clean_text_normalizes [of "[32, 12]" "[]" sample_cap 1] h sp
  have "extract_text_from_image sample_cap 1 = Inr []" by blast
  moreover from clean_text_normalizes [of "str ''  Hello \<newline>\<newline> world ''" "str ''a\<newline>\<newline>\<newline>\<newline>\<newline>b''" sample_cap 1]
  have "clean_text (str ''  Hello \<newline>\<newline> world '') = spec_normalize (str ''  Hello \<newline>\<newline> world '')"
    and "collapse_newlines (str ''a\<newline>\<newline>\<newline>\<newline>\<newline>b'') = spec_collapse_runs (str ''a\<newline>\<newline>\<newline>\<newline>\<newline>b'')"
    by blast+
  moreover have "spec_normalize (str ''  Hello \<newline>\<newline> world '') = str ''Hello\<newline>world''"
    by (simp add: spec_normalize_def str_def py_strip_def is_space_def)
  moreover have "spec_collapse_runs (str ''a\<newline>\<newline>\<newline>\<newline>\<newline>b'') = str ''a\<newline>\<newline>b''"
    by (simp add: str_def)
  ultimately show ?thesis using h by simp
qed







text \<open>
  C9. For every input, the cleaned text has no blank line: each of its lines is non-empty
  and has no leading or trailing whitespace, it contains no two consecutive newlines, and
  the collapsing loop leaves the joined lines as they are. In the text of a document the
  double newlines are those of the join alone: no block of a page contains one, and there
  are as many as there are joints between the blocks.
\<close>

theorem cleaned_text_has_no_blank_line:
  "(\<forall>l\<in>set (lines_of (clean_text text)). l \<noteq> [] \<and> py_strip l = l)
   \<and> \<not> contains [LF, LF] (clean_text text)
   \<and> collapse_newlines (py_join [LF] (clean_loop (py_split [LF] text) []))
       = py_join [LF] (clean_loop (py_split [LF] text) [])
   \<and> (convert_from_path cap pdf = Inr images \<and> images \<noteq> []
        \<and> (\<forall>img\<in>set images. image_to_string cap img = Inr (raw img))
      \<longrightarrow> process_pdf cap pdf = Inr (py_join [LF, LF] (map block_text (document_blocks raw images)))
        \<and> (\<forall>b\<in>set (map block_text (document_blocks raw images)). occurrences [LF, LF] b = 0)
        \<and> occurrences [LF, LF] (py_join [LF, LF] (map block_text (document_blocks raw images)))
            = length (document_blocks raw images) - 1)"
proof (intro conjI impI)
  show "\<forall>l\<in>set (lines_of (clean_text text)). l \<noteq> [] \<and> py_strip l = l"
  proof
    fix l assume "l \<in> set (lines_of (clean_text text))"
    then have "l \<in> set (clean_loop (py_split [LF] text) [])" by (simp add: lines_of_clean_text)
    then have "l \<noteq> [] \<and> \<not> is_space (hd l) \<and> \<not> is_space (last l)" using cleaned_line by blast
    then show "l \<noteq> [] \<and> py_strip l = l" by (simp add: py_strip_id)
  qed
  show "\<not> contains [LF, LF] (clean_text text)" by (rule clean_text_no_double)
  have "\<not> contains [LF, LF, LF] (clean_text text)"
    using clean_text_no_double contains_triple_double by blast
  then show "collapse_newlines (py_join [LF] (clean_loop (py_split [LF] text) []))
       = py_join [LF] (clean_loop (py_split [LF] text) [])"
    unfolding clean_text_join by (rule collapse_newlines_id)
next
  assume h: "convert_from_path cap pdf = Inr images \<and> images \<noteq> []
        \<and> (\<forall>img\<in>set images. image_to_string cap img = Inr (raw img))"
  then show "process_pdf cap pdf = Inr (py_join [LF, LF] (map block_text (document_blocks raw images)))"
    by (intro process_pdf_blocks) auto
  show "\<forall>b\<in>set (map block_text (document_blocks raw images)). occurrences [LF, LF] b = 0"
    using document_blocks_props by (auto simp: occurrences_0_iff)
  have "occurrences [LF, LF] (py_join [LF, LF] (map block_text (document_blocks raw images)))
      = length (map block_text (document_blocks raw images)) - 1"
    using document_blocks_props by (intro occurrences_py_join) blast
  then show "occurrences [LF, LF] (py_join [LF, LF] (map block_text (document_blocks raw images)))
      = length (document_blocks raw images) - 1"
    by simp
qed

theorem cleaned_text_has_no_blank_line_witness:
  "convert_from_path sample_cap sample_pdf = Inr [0, 1, 2]
   \<and> image_to_string sample_cap 0 = Inr (sample_raw 0)
   \<and> image_to_string sample_cap 1 = Inr (sample_raw 1)
   \<and> image_to_string sample_cap 2 = Inr (sample_raw 2)
   \<and> lines_of (clean_text (sample_raw 0)) = [str ''Hello'', str ''world'']
   \<and> process_pdf sample_cap sample_pdf
       = Inr (str ''--- Page 1 ---\<newline>Hello\<newline>world\<newline>\<newline>--- Page 3 ---\<newline>Bye'')
   \<and> occurrences [LF, LF] (py_join [LF, LF] (map block_text (document_blocks sample_raw [0, 1, 2]))) = 1"
proof -
  have h: "convert_from_path sample_cap sample_pdf = Inr [0, 1, 2] \<and> [0, 1, 2 :: nat] \<noteq> []
      \<and> (\<forall>img\<in>set [0, 1, 2]. image_to_string sample_cap img = Inr (sample_raw img))"
    by (simp add: sample_cap_def)
  have len: "length (document_blocks sample_raw [0, 1, 2]) - 1 = 1"
    by (simp add: eval_ocr)
  have doc: "py_join [LF, LF] (map block_text (document_blocks sample_raw [0, 1, 2]))
      = str ''--- Page 1 ---\<newline>Hello\<newline>world\<newline>\<newline>--- Page 3 ---\<newline>Bye''"
    by (simp add: eval_ocr)
  have lines: "lines_of (clean_text (sample_raw 0)) = [str ''Hello'', str ''world'']"
    by (simp add: eval_ocr)
  from cleaned_text_has_no_blank_line [of "sample_raw 0" sample_cap sample_pdf "[0, 1, 2]" sample_raw] h
  have "process_pdf sample_cap sample_pdf
       = Inr (py_join [LF, LF] (map block_text (document_blocks sample_raw [0, 1, 2])))
    \<and> occurrences [LF, LF] (py_join [LF, LF] (map block_text (document_blocks sample_raw [0, 1, 2])))
       = length (document_blocks sample_raw [0, 1, 2]) - 1"
    by blast
  with len doc lines show ?thesis by (simp add: sample_cap_def)
qed




end
